theory Spec2Isabelle
  imports Complex_Main "HOL-Library.Word"
begin

unbundle bit_operations_syntax

section \<open>The raster surface\<close>

text \<open>
  The drawing code of \<^verbatim>\<open>src/text/AreaText.js\<close> (which holds both \<^verbatim>\<open>AreaText\<close> and
  \<^verbatim>\<open>Group\<close>) and of the revision of \<^verbatim>\<open>AreaText\<close> in \<^verbatim>\<open>unnamed/part_000\<close> works on a
  canvas 2D context.
  JavaScript numbers are embedded as exact reals (or integers where the source only
  produces integers); NaN and infinities are outside the embedding.

  A child of a group is an item carrying the two flags the group inspects:
  \<^verbatim>\<open>_clipMask\<close> (read through \<^verbatim>\<open>isClipMask()\<close>) and the flag read through
  \<^verbatim>\<open>isClippable()\<close>. \<open>ident\<close> stands for the identity of the JavaScript object.
\<close>

record item =
  ident :: string
  clipMask :: bool
  clippable :: bool

text \<open>
  What reaches the surface is kept as a log: a child drawn (with the blend operator that
  was active when its \<^verbatim>\<open>draw\<close> was called) or a glyph run painted at a device position.
\<close>

datatype paint =
    ItemDrawn item string
  | FillText string real real
  | StrokeText string real real

text \<open>
  \<open>Px n\<close> is the string \<^verbatim>\<open>n + 'px'\<close> for an integer \<open>n\<close>; \<open>PxNaN\<close> is the string
  \<^verbatim>\<open>'NaNpx'\<close>. A font description (the value of \<^verbatim>\<open>ctx.font\<close>) is kept as the pair of
  font size and font family it is built from.
\<close>

datatype css_px = Px int | PxNaN

type_synonym font_desc = "css_px option \<times> string"

record canvas_ctx =
  globalCompositeOperation :: string
  ctx_font :: font_desc
  textAlign :: string
  translation :: "real \<times> real"
  fillStyle :: "string option"
  strokeStyle :: "string option"
  painted :: "paint list"

definition translate :: "real \<Rightarrow> real \<Rightarrow> canvas_ctx \<Rightarrow> canvas_ctx" where
  "translate dx dy c = c\<lparr>translation := (fst (translation c) + dx, snd (translation c) + dy)\<rparr>"

definition fillText :: "string \<Rightarrow> real \<Rightarrow> real \<Rightarrow> canvas_ctx \<Rightarrow> canvas_ctx" where
  "fillText line px py c =
     c\<lparr>painted := painted c @ [FillText line (fst (translation c) + px) (snd (translation c) + py)]\<rparr>"

definition strokeText :: "string \<Rightarrow> real \<Rightarrow> real \<Rightarrow> canvas_ctx \<Rightarrow> canvas_ctx" where
  "strokeText line px py c =
     c\<lparr>painted := painted c @ [StrokeText line (fst (translation c) + px) (snd (translation c) + py)]\<rparr>"

record rect =
  topLeft_x :: real
  topLeft_y :: real
  width :: real
  height :: real

section \<open>Group\<close>

text \<open>
  \<^verbatim>\<open>_children\<close>, \<^verbatim>\<open>compositing\<close> and the cache \<^verbatim>\<open>_clipItems\<close> (\<open>None\<close> once deleted).
  \<^verbatim>\<open>getStrokeBounds()\<close> belongs to the item base class, which is not part of the sources;
  its result is the field \<open>strokeBounds\<close>.
\<close>

record group =
  children :: "item list"
  compositing :: string
  clipItems :: "item list option"
  strokeBounds :: rect

record param =
  offset :: "(int \<times> int) option"

text \<open>
  \<^verbatim>\<open>_changed(flags)\<close>. The values of \<^verbatim>\<open>ChangeFlag.HIERARCHY\<close> and
  \<^verbatim>\<open>ChangeFlag.CLIPPING\<close> are not in the sources and are parameters. The call of the base
  class and \<^verbatim>\<open>applyMatrix()\<close> concern the matrix of the group and are left out.
\<close>

definition changed :: "32 word \<Rightarrow> 32 word \<Rightarrow> 32 word \<Rightarrow> group \<Rightarrow> group" where
  "changed HIERARCHY CLIPPING flags g =
     (if flags AND (HIERARCHY OR CLIPPING) \<noteq> 0 then g\<lparr>clipItems := None\<rparr> else g)"

text \<open>The loop of \<^verbatim>\<open>_getClipItems\<close>, pushing every child whose \<^verbatim>\<open>_clipMask\<close> is set.\<close>

fun getClipItems_loop :: "item list \<Rightarrow> item list \<Rightarrow> item list" where
  "getClipItems_loop [] acc = acc"
| "getClipItems_loop (child # rest) acc =
     getClipItems_loop rest (if clipMask child then acc @ [child] else acc)"

definition getClipItems :: "group \<Rightarrow> item list \<times> group" where
  "getClipItems g =
     (let found = getClipItems_loop (children g) [] in (found, g\<lparr>clipItems := Some found\<rparr>))"

definition isClipped :: "group \<Rightarrow> bool \<times> group" where
  "isClipped g = (let (found, g') = getClipItems g in (length found > 0, g'))"

text \<open>
  Modelled from the spec: \<^verbatim>\<open>Item.setClipMask\<close> is not part of the sources; the spec has the
  flag \<^verbatim>\<open>isClipMask\<close> owned by the child and toggled on it, so the setter assigns the flag.
\<close>

definition setClipMask :: "bool \<Rightarrow> item \<Rightarrow> item" where
  "setClipMask clipped child = child\<lparr>clipMask := clipped\<rparr>"

text \<open>\<^verbatim>\<open>setClipped\<close>: \<^verbatim>\<open>getFirstChild()\<close> is the first element of the child list, if any.\<close>

definition setClipped :: "bool \<Rightarrow> group \<Rightarrow> group" where
  "setClipped clipped g =
     (case children g of
        [] \<Rightarrow> g
      | child # rest \<Rightarrow> g\<lparr>children := setClipMask clipped child # rest\<rparr>)"

text \<open>
  Modelled from the spec: \<^verbatim>\<open>Item.draw\<close> is not part of the sources; the spec has it dispatch
  to the node's own implementation. Here a child's draw records the child and the active
  blend operator on the surface and changes nothing else.
\<close>

definition item_draw :: "item \<Rightarrow> canvas_ctx \<Rightarrow> param \<Rightarrow> canvas_ctx" where
  "item_draw it c p = c\<lparr>painted := painted c @ [ItemDrawn it (globalCompositeOperation c)]\<rparr>"

text \<open>
  The main loop of \<^verbatim>\<open>Group._draw\<close> over \<^verbatim>\<open>_children\<close>, with the list \<^verbatim>\<open>unclippable\<close> as
  accumulator; \<open>d\<close> is the \<^verbatim>\<open>draw\<close> of a child.
\<close>

fun draw_children ::
  "(item \<Rightarrow> canvas_ctx \<Rightarrow> param \<Rightarrow> canvas_ctx) \<Rightarrow> string \<Rightarrow> bool \<Rightarrow> item list \<Rightarrow> item list
     \<Rightarrow> canvas_ctx \<Rightarrow> param \<Rightarrow> item list \<times> canvas_ctx" where
  "draw_children d blend hasClipItems [] unclippable c p = (unclippable, c)"
| "draw_children d blend hasClipItems (it # rest) unclippable c p =
     (if clipMask it then
        (let origComposite = globalCompositeOperation c;
             c1 = c\<lparr>globalCompositeOperation := blend\<rparr>;
             c2 = d it c1 p;
             c3 = c2\<lparr>globalCompositeOperation := origComposite\<rparr>
         in draw_children d blend hasClipItems rest unclippable c3 p)
      else if hasClipItems \<and> \<not> clippable it then
        draw_children d blend hasClipItems rest (unclippable @ [it]) c p
      else
        draw_children d blend hasClipItems rest unclippable (d it c p) p)"

text \<open>The second loop, over the keys of \<^verbatim>\<open>unclippable\<close> in index order.\<close>

fun draw_unclippable ::
  "(item \<Rightarrow> canvas_ctx \<Rightarrow> param \<Rightarrow> canvas_ctx) \<Rightarrow> item list \<Rightarrow> canvas_ctx \<Rightarrow> param \<Rightarrow> canvas_ctx" where
  "draw_unclippable d [] c p = c"
| "draw_unclippable d (it # rest) c p = draw_unclippable d rest (d it c p) p"

text \<open>\<^verbatim>\<open>Group._draw\<close>. \<^verbatim>\<open>!bounds.width\<close> holds for the number 0.\<close>

definition Group_draw ::
  "(item \<Rightarrow> canvas_ctx \<Rightarrow> param \<Rightarrow> canvas_ctx) \<Rightarrow> group \<Rightarrow> canvas_ctx \<Rightarrow> param
     \<Rightarrow> group \<times> canvas_ctx \<times> param" where
  "Group_draw d g c p =
     (let (found, g1) = getClipItems g;
          hasClipItems = length found > 0;
          sb = strokeBounds g1
      in if hasClipItems \<and> (width sb = 0 \<or> height sb = 0) then (g1, c, p)
         else
           (let p1 = (if hasClipItems
                      then p\<lparr>offset := Some (\<lfloor>topLeft_x sb\<rfloor>, \<lfloor>topLeft_y sb\<rfloor>)\<rparr>
                      else p);
                (unclippable, c1) = draw_children d (compositing g1) hasClipItems (children g1) [] c p1
            in (g1, draw_unclippable d unclippable c1 p1, p1)))"

text \<open>The items a surface log shows as drawn, in order.\<close>

fun drawn_items :: "paint list \<Rightarrow> item list" where
  "drawn_items [] = []"
| "drawn_items (ItemDrawn it b # rest) = it # drawn_items rest"
| "drawn_items (_ # rest) = drawn_items rest"

text \<open>The items drawn by one pass of \<^verbatim>\<open>Group._draw\<close>, children drawing as \<open>item_draw\<close>.\<close>

definition drawn_by_group :: "group \<Rightarrow> canvas_ctx \<Rightarrow> param \<Rightarrow> item list" where
  "drawn_by_group g c p =
     drawn_items (drop (length (painted c)) (painted (fst (snd (Group_draw item_draw g c p)))))"

section \<open>AreaText\<close>

text \<open>
  The text payload (\<^verbatim>\<open>_content\<close> and its \<^verbatim>\<open>_lines\<close>), the style slots the code reads and
  writes, and the region itself. In \<^verbatim>\<open>src/text/AreaText.js\<close> the canonical slots are those
  of the region's own style; in \<^verbatim>\<open>unnamed/part_000\<close> they are those of the payload
  \<^verbatim>\<open>_text\<close>. Both revisions read in \<^verbatim>\<open>_draw\<close> exactly the slots their setters write, so one
  record \<open>style\<close> stands for them. \<open>None\<close> is an unset (undefined or null) slot.
\<close>

record text_item =
  content :: string
  lines :: "string list"

record style =
  fillColor :: "string option"
  strokeColor :: "string option"
  fontSize :: "css_px option"
  leading :: real
  font :: string
  justification :: string

record area_text =
  textItem :: "text_item option"
  style :: style
  bounds :: rect
  cssFillColor :: "string option"
  cssStrokeColor :: "string option"

text \<open>\<^verbatim>\<open>setColorStyle(color, strokeColor)\<close> as both revisions run it on given arguments.\<close>

definition setColorStyle :: "string option \<Rightarrow> string option \<Rightarrow> area_text \<Rightarrow> area_text" where
  "setColorStyle color strokeColorArg a =
     a\<lparr>style := (style a)\<lparr>fillColor := color, strokeColor := strokeColorArg\<rparr>,
       cssFillColor := color,
       cssStrokeColor := color\<rparr>"

text \<open>
  The call without arguments, which \<^verbatim>\<open>unnamed/part_000\<close> has: both colours are read back
  first.
\<close>

definition setColorStyle_noargs :: "area_text \<Rightarrow> area_text" where
  "setColorStyle_noargs a = setColorStyle (fillColor (style a)) (strokeColor (style a)) a"

text \<open>
  \<^verbatim>\<open>setFontStyle(fontSize, leading, fontFamily)\<close> on given arguments; \<open>None\<close> is an argument
  left out. \<^verbatim>\<open>leading || fontSize * 1.2\<close> takes the default for every falsy \<^verbatim>\<open>leading\<close>:
  undefined and the number 0. \<^verbatim>\<open>!!fontFamily\<close> is false for undefined and the empty string.
\<close>

definition setFontStyle :: "int \<Rightarrow> real option \<Rightarrow> string option \<Rightarrow> area_text \<Rightarrow> area_text" where
  "setFontStyle fontSizeArg leadingArg fontFamily a =
     (let leading1 = (case leadingArg of
                        None \<Rightarrow> of_int fontSizeArg * 1.2
                      | Some l \<Rightarrow> if l \<noteq> 0 then l else of_int fontSizeArg * 1.2);
          st1 = (style a)\<lparr>fontSize := Some (Px fontSizeArg), leading := leading1\<rparr>;
          st2 = (case fontFamily of
                   None \<Rightarrow> st1
                 | Some f \<Rightarrow> if f \<noteq> [] then st1\<lparr>font := f\<rparr> else st1)
      in a\<lparr>style := st2\<rparr>)"

text \<open>
  The call without arguments, which \<^verbatim>\<open>unnamed/part_000\<close> has: \<^verbatim>\<open>parseInt\<close> of the stored size,
  the stored leading and the stored family are written back; \<^verbatim>\<open>parseInt\<close> of an unset slot
  or of \<^verbatim>\<open>'NaNpx'\<close> is NaN.
\<close>

definition setFontStyle_noargs :: "area_text \<Rightarrow> area_text" where
  "setFontStyle_noargs a =
     a\<lparr>style := (style a)\<lparr>fontSize :=
         (case fontSize (style a) of Some (Px n) \<Rightarrow> Some (Px n) | _ \<Rightarrow> Some PxNaN)\<rparr>\<rparr>"

text \<open>
  Modelled from the spec: \<^verbatim>\<open>_setStyles\<close> and \<^verbatim>\<open>style.getFontStyle()\<close> are not part of the
  sources; the spec has the setup resolve fill colour, stroke colour and font from the
  style and configure the surface with them.
\<close>

definition setStyles :: "style \<Rightarrow> canvas_ctx \<Rightarrow> canvas_ctx" where
  "setStyles st c =
     c\<lparr>fillStyle := (case fillColor st of None \<Rightarrow> fillStyle c | Some col \<Rightarrow> Some col),
       strokeStyle := (case strokeColor st of None \<Rightarrow> strokeStyle c | Some col \<Rightarrow> Some col)\<rparr>"

definition getFontStyle :: "style \<Rightarrow> font_desc" where
  "getFontStyle st = (fontSize st, font st)"

text \<open>\<^verbatim>\<open>Array.prototype.join\<close> and \<^verbatim>\<open>String.prototype.split\<close> on a one-character separator.\<close>

fun join :: "string \<Rightarrow> string list \<Rightarrow> string" where
  "join sep [] = []"
| "join sep [w] = w"
| "join sep (w # ws) = w @ sep @ join sep ws"

fun split :: "char \<Rightarrow> string \<Rightarrow> string list" where
  "split sep [] = [[]]"
| "split sep (ch # rest) =
     (if ch = sep then [] # split sep rest
      else (case split sep rest of [] \<Rightarrow> [[ch]] | w # ws \<Rightarrow> (ch # w) # ws))"

text \<open>
  The state the closures \<^verbatim>\<open>testLine\<close> and \<^verbatim>\<open>writeLine\<close> share: the surface and
  \<^verbatim>\<open>currentHeight\<close>. \<^verbatim>\<open>leading\<close>, \<^verbatim>\<open>maxWidth\<close> and \<^verbatim>\<open>maxHeight\<close> are read from the region.
\<close>

record draw_state =
  ctx :: canvas_ctx
  currentHeight :: real

definition writeLine :: "area_text \<Rightarrow> string \<Rightarrow> draw_state \<Rightarrow> draw_state" where
  "writeLine a line s =
     (if currentHeight s + leading (style a) > height (bounds a) then s
      else
        (let c1 = (if fillColor (style a) \<noteq> None then fillText line 0 0 (ctx s) else ctx s);
             c2 = (if strokeColor (style a) \<noteq> None then strokeText line 0 0 c1 else c1);
             c3 = translate 0 (leading (style a)) c2
         in \<lparr>ctx = c3, currentHeight = currentHeight s + leading (style a)\<rparr>))"

text \<open>
  \<^verbatim>\<open>testLine(words, separator)\<close>: the state of its loop is the index \<open>n\<close> and the candidate
  \<open>line\<close>. \<open>mt\<close> is \<^verbatim>\<open>ctx.measureText(_).width\<close> under the active font. After a line is
  written for a non-empty candidate, \<^verbatim>\<open>n--\<close> followed by the loop's \<^verbatim>\<open>n++\<close> revisits the
  same word with an empty candidate. In the recursive call the word, a string, is indexed
  by character. A call that never returns (the recursion has no bound) is \<open>None\<close>.
\<close>

partial_function (option) testLine_loop ::
  "(font_desc \<Rightarrow> string \<Rightarrow> real) \<Rightarrow> area_text \<Rightarrow> string list \<Rightarrow> string \<Rightarrow> nat \<Rightarrow> string list
     \<Rightarrow> draw_state \<Rightarrow> (string list \<times> draw_state) option" where
  "testLine_loop mt a words separator n line s =
     (if n < length words then
        (let line1 = line @ [words ! n] in
         if mt (ctx_font (ctx s)) (join separator line1) > width (bounds a) then
           (let word = last line1; line2 = butlast line1 in
            if length line2 > 0 then
              testLine_loop mt a words separator n [] (writeLine a (join separator line2) s)
            else
              Option.bind (testLine_loop mt a (map (\<lambda>ch. [ch]) word) [] 0 [] s)
                (\<lambda>r. testLine_loop mt a words separator (Suc n) []
                        (writeLine a (join [] (fst r)) (snd r))))
         else testLine_loop mt a words separator (Suc n) line1 s)
      else Some (line, s))"

declare testLine_loop.simps [code]

definition testLine ::
  "(font_desc \<Rightarrow> string \<Rightarrow> real) \<Rightarrow> area_text \<Rightarrow> string list \<Rightarrow> string \<Rightarrow> draw_state
     \<Rightarrow> (string list \<times> draw_state) option" where
  "testLine mt a words separator s = testLine_loop mt a words separator 0 [] s"

text \<open>The loop of \<^verbatim>\<open>_draw\<close> over the logical lines.\<close>

fun draw_lines ::
  "(font_desc \<Rightarrow> string \<Rightarrow> real) \<Rightarrow> area_text \<Rightarrow> string list \<Rightarrow> draw_state \<Rightarrow> draw_state option" where
  "draw_lines mt a [] s = Some s"
| "draw_lines mt a (l # ls) s =
     Option.bind (testLine mt a (split CHR '' '' l) '' '' s)
       (\<lambda>r. draw_lines mt a ls
               (if length (fst r) > 0 then writeLine a (join '' '' (fst r)) (snd r) else snd r))"

text \<open>
  \<^verbatim>\<open>parseInt(this.fontSize || 0)\<close>: 0 for an unset slot, the integer of \<^verbatim>\<open>n + 'px'\<close>, and NaN
  (\<open>None\<close>) for \<^verbatim>\<open>'NaNpx'\<close>.
\<close>

definition parseInt_fontSize :: "css_px option \<Rightarrow> int option" where
  "parseInt_fontSize fs = (case fs of None \<Rightarrow> Some 0 | Some (Px n) \<Rightarrow> Some n | Some PxNaN \<Rightarrow> None)"

text \<open>
  \<^verbatim>\<open>AreaText._draw\<close>. The surface ignores a \<^verbatim>\<open>translate\<close> with a NaN argument. The result is
  \<open>None\<close> when the call never returns.
\<close>

definition AreaText_draw ::
  "(font_desc \<Rightarrow> string \<Rightarrow> real) \<Rightarrow> area_text \<Rightarrow> canvas_ctx \<Rightarrow> canvas_ctx option" where
  "AreaText_draw mt a c =
     (case textItem a of
        None \<Rightarrow> Some c
      | Some t \<Rightarrow>
          if content t = [] then Some c
          else
            (let c1 = setStyles (style a) c in
             if width (bounds a) = 0 \<or> height (bounds a) = 0 then Some c1
             else
               (let c2 = c1\<lparr>ctx_font := getFontStyle (style a),
                             textAlign := justification (style a)\<rparr>;
                    c3 = (case parseInt_fontSize (fontSize (style a)) of
                            None \<Rightarrow> c2
                          | Some k \<Rightarrow> translate (topLeft_x (bounds a) + 1)
                                        (topLeft_y (bounds a) + of_int k - 1) c2)
                in map_option ctx (draw_lines mt a (lines t) \<lparr>ctx = c3, currentHeight = 0\<rparr>))))"

section \<open>Example inputs\<close>

definition blank_ctx :: canvas_ctx where
  "blank_ctx = \<lparr>globalCompositeOperation = ''source-over'', ctx_font = (None, ''sans-serif''),
     textAlign = ''start'', translation = (0, 0), fillStyle = None, strokeStyle = None,
     painted = []\<rparr>"

text \<open>
  A group whose second child is a clip mask, between two non-clippable children and an
  ordinary one; and a group without clip mask whose stroke bounds have no width.
\<close>

definition mixed_group :: group where
  "mixed_group = \<lparr>children =
       [\<lparr>ident = ''label'', clipMask = False, clippable = False\<rparr>,
        \<lparr>ident = ''eraser'', clipMask = True, clippable = True\<rparr>,
        \<lparr>ident = ''stroke'', clipMask = False, clippable = True\<rparr>,
        \<lparr>ident = ''cursor'', clipMask = False, clippable = False\<rparr>],
     compositing = ''source-in'', clipItems = None,
     strokeBounds = \<lparr>topLeft_x = 0, topLeft_y = 0, width = 10, height = 10\<rparr>\<rparr>"

definition flat_group :: group where
  "flat_group = \<lparr>children = [\<lparr>ident = ''rule'', clipMask = False, clippable = True\<rparr>],
     compositing = ''source-in'', clipItems = None,
     strokeBounds = \<lparr>topLeft_x = 0, topLeft_y = 0, width = 0, height = 10\<rparr>\<rparr>"

text \<open>A measurement that gives every character the width 1.\<close>

definition unit_width :: "font_desc \<Rightarrow> string \<Rightarrow> real" where
  "unit_width f t = of_nat (length t)"

text \<open>A measurement that gives the letter a the width 2 and every other character 1.\<close>

definition weighted_width :: "font_desc \<Rightarrow> string \<Rightarrow> real" where
  "weighted_width f t = sum_list (map (\<lambda>ch. if ch = CHR ''a'' then 2 else 1) t)"

text \<open>
  A region of width 8 and height 100 at (5, 7), black fill, 10px font and leading 12;
  the same region with the one-letter text W in a box narrower than a letter.
\<close>

definition sample_region :: area_text where
  "sample_region =
     \<lparr>textItem = Some \<lparr>content = ''aaa bbb ccc'', lines = [''aaa bbb ccc'']\<rparr>,
      style = \<lparr>fillColor = Some ''black'', strokeColor = None, fontSize = Some (Px 10),
               leading = 12, font = ''serif'', justification = ''left''\<rparr>,
      bounds = \<lparr>topLeft_x = 5, topLeft_y = 7, width = 8, height = 100\<rparr>,
      cssFillColor = Some ''black'', cssStrokeColor = None\<rparr>"

definition narrow_region :: area_text where
  "narrow_region =
     sample_region\<lparr>textItem := Some \<lparr>content = ''W'', lines = [''W'']\<rparr>,
                   bounds := \<lparr>topLeft_x = 5, topLeft_y = 7, width = 1 / 2, height = 100\<rparr>\<rparr>"

text \<open>A draw state of \<open>sample_region\<close> in which one more line does not fit.\<close>

definition full_state :: draw_state where
  "full_state = \<lparr>ctx = blank_ctx, currentHeight = 95\<rparr>"

section \<open>The surface state\<close>

text \<open>What \<^verbatim>\<open>writeLine\<close> and \<^verbatim>\<open>testLine\<close> leave alone on the surface.\<close>

definition same_setup :: "draw_state \<Rightarrow> draw_state \<Rightarrow> bool" where
  "same_setup s s' =
     (globalCompositeOperation (ctx s') = globalCompositeOperation (ctx s) \<and>
      ctx_font (ctx s') = ctx_font (ctx s) \<and> textAlign (ctx s') = textAlign (ctx s) \<and>
      fst (translation (ctx s')) = fst (translation (ctx s)))"

text \<open>
  What a child's draw may leave as it found it: the blend operator, and the layout state
  (font, text alignment and coordinate transform).
\<close>

definition layout :: "canvas_ctx \<Rightarrow> font_desc \<times> string \<times> (real \<times> real)" where
  "layout c = (ctx_font c, textAlign c, translation c)"

definition keeps_blend :: "(item \<Rightarrow> canvas_ctx \<Rightarrow> param \<Rightarrow> canvas_ctx) \<Rightarrow> item \<Rightarrow> bool" where
  "keeps_blend d it = (\<forall>x q. globalCompositeOperation (d it x q) = globalCompositeOperation x)"

definition keeps_layout :: "(item \<Rightarrow> canvas_ctx \<Rightarrow> param \<Rightarrow> canvas_ctx) \<Rightarrow> item \<Rightarrow> bool" where
  "keeps_layout d it = (\<forall>x q. layout (d it x q) = layout x)"

text \<open>
  The glyph runs one written line paints (one for the fill colour, one for the stroke
  colour, when set), and what \<open>n\<close> written lines do to the draw state: the origin and the
  cursor are \<open>n\<close> times the leading further down and the log is longer by the runs of
  \<open>n\<close> lines.
\<close>

definition paints_per_line :: "area_text \<Rightarrow> nat" where
  "paints_per_line a =
     (if fillColor (style a) \<noteq> None then 1 else 0) + (if strokeColor (style a) \<noteq> None then 1 else 0)"

definition lines_written :: "area_text \<Rightarrow> nat \<Rightarrow> draw_state \<Rightarrow> draw_state \<Rightarrow> bool" where
  "lines_written a n s s' =
     (same_setup s s' \<and>
      snd (translation (ctx s')) = snd (translation (ctx s)) + of_nat n * leading (style a) \<and>
      currentHeight s' = currentHeight s + of_nat n * leading (style a) \<and>
      length (painted (ctx s')) = length (painted (ctx s)) + n * paints_per_line a)"

text \<open>
  The translation of the setup of \<^verbatim>\<open>AreaText._draw\<close>: none when the font size parses to NaN.
\<close>

definition setup_origin :: "area_text \<Rightarrow> real \<times> real" where
  "setup_origin a =
     (case parseInt_fontSize (fontSize (style a)) of
        None \<Rightarrow> (0, 0)
      | Some k \<Rightarrow> (topLeft_x (bounds a) + 1, topLeft_y (bounds a) + of_int k - 1))"

text \<open>The sample region with the font size NaNpx, which \<^verbatim>\<open>setFontStyle()\<close> stores for an unset size.\<close>

definition nan_region :: area_text where
  "nan_region = sample_region\<lparr>style := (style sample_region)\<lparr>fontSize := Some PxNaN\<rparr>\<rparr>"

section \<open>Group: the clip items and the draw order\<close>

lemma getClipItems_loop_filter: "getClipItems_loop cs acc = acc @ filter clipMask cs"
  by (induction cs arbitrary: acc) auto

lemma draw_children_clipped:
  "draw_children item_draw blend True cs uncl c p =
     (uncl @ filter (\<lambda>i. \<not> clipMask i \<and> \<not> clippable i) cs,
      c\<lparr>painted := painted c @
          map (\<lambda>i. ItemDrawn i (if clipMask i then blend else globalCompositeOperation c))
            (filter (\<lambda>i. clipMask i \<or> clippable i) cs)\<rparr>)"
proof (induction cs arbitrary: uncl c)
  case Nil
  show ?case by simp
next
  case (Cons it rest)
  show ?case
    by (simp only: draw_children.simps Let_def Cons.IH cong: if_cong) (simp add: item_draw_def)
qed

lemma draw_children_unclipped:
  "draw_children item_draw blend False cs uncl c p =
     (uncl,
      c\<lparr>painted := painted c @
          map (\<lambda>i. ItemDrawn i (if clipMask i then blend else globalCompositeOperation c)) cs\<rparr>)"
proof (induction cs arbitrary: uncl c)
  case Nil
  show ?case by simp
next
  case (Cons it rest)
  show ?case
    by (simp only: draw_children.simps Let_def Cons.IH cong: if_cong) (simp add: item_draw_def)
qed

lemma draw_unclippable_item_draw:
  "draw_unclippable item_draw us c p =
     c\<lparr>painted := painted c @ map (\<lambda>i. ItemDrawn i (globalCompositeOperation c)) us\<rparr>"
proof (induction us arbitrary: c)
  case Nil
  show ?case by simp
next
  case (Cons it rest)
  show ?case by (simp only: draw_unclippable.simps Cons.IH) (simp add: item_draw_def)
qed

lemma drawn_items_append: "drawn_items (xs @ ys) = drawn_items xs @ drawn_items ys"
  by (induction xs rule: drawn_items.induct) auto

lemma drawn_items_map: "drawn_items (map (\<lambda>i. ItemDrawn i (f i)) xs) = xs"
  by (induction xs) auto

lemma Group_draw_item_draw_painted:
  assumes "width (strokeBounds g) \<noteq> 0" "height (strokeBounds g) \<noteq> 0"
  shows "painted (fst (snd (Group_draw item_draw g c p))) =
     painted c @
     map (\<lambda>i. ItemDrawn i (if clipMask i then compositing g else globalCompositeOperation c))
       (filter (\<lambda>i. clipMask i \<or> \<not> (\<exists>m \<in> set (children g). clipMask m) \<or> clippable i)
          (children g)) @
     map (\<lambda>i. ItemDrawn i (globalCompositeOperation c))
       (filter (\<lambda>i. \<not> clipMask i \<and> (\<exists>m \<in> set (children g). clipMask m) \<and> \<not> clippable i)
          (children g))"
proof (cases "\<exists>m \<in> set (children g). clipMask m")
  case True
  then have "filter clipMask (children g) \<noteq> []" by (simp add: filter_empty_conv)
  with True assms show ?thesis
    by (simp add: Group_draw_def getClipItems_def getClipItems_loop_filter Let_def
        draw_children_clipped draw_unclippable_item_draw)
next
  case False
  then have "filter clipMask (children g) = []" by (simp add: filter_empty_conv)
  with False assms show ?thesis
    by (simp add: Group_draw_def getClipItems_def getClipItems_loop_filter Let_def
        draw_children_unclipped draw_unclippable_item_draw)
qed

lemma split_order:
  assumes "D = A @ B" "\<forall>x \<in> set A. \<not> P x" "\<forall>x \<in> set B. P x"
      and "i < length D" "j < length D" "P (D ! i)" "\<not> P (D ! j)"
  shows "j < i"
proof -
  have "\<not> i < length A"
  proof
    assume "i < length A"
    with assms(1) have "D ! i \<in> set A" by (simp add: nth_append)
    with assms(2,6) show False by blast
  qed
  moreover have "j < length A"
  proof (rule ccontr)
    assume "\<not> j < length A"
    with assms(1,5) have "D ! j \<in> set B" by (simp add: nth_append)
    with assms(3,7) show False by blast
  qed
  ultimately show ?thesis by simp
qed

text \<open>
  C1. In a draw pass of a group that has a clip mask, the children drawn are first every
  clip-mask child and every ordinary child, in list order, and then the non-clippable
  children, in the order they have in the child list (nothing is drawn when the stroke
  bounds are degenerate); so each non-clippable child is drawn strictly after every
  clip-mask child and every ordinary child. A child is a clip-mask child when its
  clip-mask flag is set, whatever its other flag.
\<close>

theorem unclippable_children_drawn_last:
  assumes masks: "\<exists>m \<in> set (children g). clipMask m"
  shows "(width (strokeBounds g) \<noteq> 0 \<and> height (strokeBounds g) \<noteq> 0 \<longrightarrow>
            drawn_by_group g c p =
              filter (\<lambda>i. clipMask i \<or> clippable i) (children g) @
              filter (\<lambda>i. \<not> clipMask i \<and> \<not> clippable i) (children g))
       \<and> (width (strokeBounds g) = 0 \<or> height (strokeBounds g) = 0 \<longrightarrow>
            drawn_by_group g c p = [])
       \<and> (\<forall>i < length (drawn_by_group g c p). \<forall>j < length (drawn_by_group g c p).
            (\<not> clipMask (drawn_by_group g c p ! i) \<and> \<not> clippable (drawn_by_group g c p ! i)) \<longrightarrow>
            (clipMask (drawn_by_group g c p ! j) \<or> clippable (drawn_by_group g c p ! j)) \<longrightarrow> j < i)"
proof -
  let ?main = "filter (\<lambda>i. clipMask i \<or> clippable i) (children g)"
  let ?late = "filter (\<lambda>i. \<not> clipMask i \<and> \<not> clippable i) (children g)"
  let ?D = "drawn_by_group g c p"
  have eq: "?D = ?main @ ?late"
    if nondeg: "width (strokeBounds g) \<noteq> 0 \<and> height (strokeBounds g) \<noteq> 0"
    unfolding drawn_by_group_def
      Group_draw_item_draw_painted [OF nondeg [THEN conjunct1] nondeg [THEN conjunct2]]
    using masks by (simp add: drawn_items_append drawn_items_map)
  have none: "?D = []" if deg: "width (strokeBounds g) = 0 \<or> height (strokeBounds g) = 0"
  proof -
    from masks have "filter clipMask (children g) \<noteq> []" by (simp add: filter_empty_conv)
    with deg have "fst (snd (Group_draw item_draw g c p)) = c"
      by (auto simp: Group_draw_def getClipItems_def getClipItems_loop_filter Let_def)
    then show ?thesis by (simp add: drawn_by_group_def)
  qed
  have "\<forall>i < length ?D. \<forall>j < length ?D.
          (\<not> clipMask (?D ! i) \<and> \<not> clippable (?D ! i)) \<longrightarrow>
          (clipMask (?D ! j) \<or> clippable (?D ! j)) \<longrightarrow> j < i"
  proof (cases "width (strokeBounds g) \<noteq> 0 \<and> height (strokeBounds g) \<noteq> 0")
    case False
    then have "?D = []" by (intro none) simp
    then show ?thesis by simp
  next
    case True
    note eq' = eq [OF True]
    show ?thesis
    proof (intro allI impI)
      fix i j
      assume i: "i < length ?D" and j: "j < length ?D"
        and late: "\<not> clipMask (?D ! i) \<and> \<not> clippable (?D ! i)"
        and main: "clipMask (?D ! j) \<or> clippable (?D ! j)"
      have A: "\<forall>x \<in> set ?main. \<not> (\<not> clipMask x \<and> \<not> clippable x)" by simp
      have B: "\<forall>x \<in> set ?late. \<not> clipMask x \<and> \<not> clippable x" by simp
      from main have main': "\<not> (\<not> clipMask (?D ! j) \<and> \<not> clippable (?D ! j))" by simp
      show "j < i"
        by (rule split_order [where P = "\<lambda>x. \<not> clipMask x \<and> \<not> clippable x",
              OF eq' A B i j late main'])
    qed
  qed
  with eq none show ?thesis by (intro conjI impI)
qed

lemma mixed_group_order:
  "map ident (filter (\<lambda>i. clipMask i \<or> clippable i) (children mixed_group) @
     filter (\<lambda>i. \<not> clipMask i \<and> \<not> clippable i) (children mixed_group))
   = [''eraser'', ''stroke'', ''label'', ''cursor'']"
  by (simp add: mixed_group_def)

theorem unclippable_children_drawn_last_witness:
  "(\<exists>m \<in> set (children mixed_group). clipMask m)
   \<and> width (strokeBounds mixed_group) \<noteq> 0 \<and> height (strokeBounds mixed_group) \<noteq> 0
   \<and> map ident (drawn_by_group mixed_group blank_ctx \<lparr>offset = None\<rparr>)
      = [''eraser'', ''stroke'', ''label'', ''cursor'']
   \<and> (\<exists>m \<in> set (children (mixed_group\<lparr>strokeBounds := strokeBounds flat_group\<rparr>)). clipMask m)
   \<and> width (strokeBounds (mixed_group\<lparr>strokeBounds := strokeBounds flat_group\<rparr>)) = 0
   \<and> drawn_by_group (mixed_group\<lparr>strokeBounds := strokeBounds flat_group\<rparr>) blank_ctx
        \<lparr>offset = None\<rparr> = []"
proof -
  let ?g = "mixed_group\<lparr>strokeBounds := strokeBounds flat_group\<rparr>"
  have m: "\<exists>m \<in> set (children mixed_group). clipMask m" by (simp add: mixed_group_def)
  have w: "width (strokeBounds mixed_group) \<noteq> 0" by (simp add: mixed_group_def)
  have h: "height (strokeBounds mixed_group) \<noteq> 0" by (simp add: mixed_group_def)
  have m': "\<exists>m \<in> set (children ?g). clipMask m" by (simp add: mixed_group_def)
  have w': "width (strokeBounds ?g) = 0" by (simp add: flat_group_def)
  note t = unclippable_children_drawn_last [OF m, of blank_ctx "\<lparr>offset = None\<rparr>"]
  note t' = unclippable_children_drawn_last [OF m', of blank_ctx "\<lparr>offset = None\<rparr>"]
  have a: "map ident (drawn_by_group mixed_group blank_ctx \<lparr>offset = None\<rparr>)
      = [''eraser'', ''stroke'', ''label'', ''cursor'']"
    using t [THEN conjunct1, THEN mp, OF conjI [OF w h]] mixed_group_order by simp
  have b: "drawn_by_group ?g blank_ctx \<lparr>offset = None\<rparr> = []"
    by (rule t' [THEN conjunct2, THEN conjunct1, THEN mp, OF disjI1 [OF w']])
  from m w h a m' w' b show ?thesis by (intro conjI)
qed

section \<open>Group: the clipped status\<close>

lemma isClipped_value: "fst (isClipped g) = (\<exists>it \<in> set (children g). clipMask it)"
  by (simp add: isClipped_def getClipItems_def getClipItems_loop_filter Let_def filter_empty_conv)

lemma isClipped_cache: "clipItems (snd (isClipped g)) = Some (filter clipMask (children g))"
  by (simp add: isClipped_def getClipItems_def getClipItems_loop_filter Let_def)

lemma children_changed: "children (changed H C flags g) = children g"
  by (simp add: changed_def)

lemma Bex_list_update:
  assumes "i < length xs"
  shows "(\<exists>x \<in> set (xs[i := y]). P x) = (P y \<or> (\<exists>j < length xs. j \<noteq> i \<and> P (xs ! j)))"
proof
  assume "\<exists>x \<in> set (xs[i := y]). P x"
  then obtain j where j: "j < length xs" and P: "P (xs[i := y] ! j)"
    by (auto simp: in_set_conv_nth)
  show "P y \<or> (\<exists>j < length xs. j \<noteq> i \<and> P (xs ! j))"
  proof (cases "j = i")
    case True
    with P j show ?thesis by simp
  next
    case False
    with P j have "P (xs ! j)" by simp
    with False j show ?thesis by blast
  qed
next
  assume "P y \<or> (\<exists>j < length xs. j \<noteq> i \<and> P (xs ! j))"
  then show "\<exists>x \<in> set (xs[i := y]). P x"
  proof
    assume "P y"
    moreover from assms have "y \<in> set (xs[i := y])" by (rule set_update_memI)
    ultimately show ?thesis by blast
  next
    assume "\<exists>j < length xs. j \<noteq> i \<and> P (xs ! j)"
    then obtain j where j: "j < length xs" "j \<noteq> i" "P (xs ! j)" by blast
    then have "xs[i := y] ! j = xs ! j" by simp
    moreover have "xs[i := y] ! j \<in> set (xs[i := y])"
      by (rule nth_mem) (simp add: j)
    ultimately have "xs ! j \<in> set (xs[i := y])" by simp
    with j show ?thesis by blast
  qed
qed

text \<open>
  C7. \<^verbatim>\<open>isClipped()\<close> is true exactly when some direct child has its clip-mask flag set.
  It is computed from the clip-item list, which every call rebuilds from the children, so
  the value does not depend on what the cache held; after the flag of a child is set and
  the group is notified, the next query gives the value for the changed children.
\<close>

theorem isClipped_iff_clip_mask_child:
  "fst (isClipped g) = (\<exists>it \<in> set (children g). clipMask it)
   \<and> clipItems (snd (isClipped g)) = Some (filter clipMask (children g))
   \<and> fst (isClipped (g\<lparr>clipItems := cache\<rparr>)) = fst (isClipped g)
   \<and> (i < length (children g) \<longrightarrow>
        fst (isClipped (changed H C flags
               (g\<lparr>children := (children g)[i := setClipMask b (children g ! i)]\<rparr>)))
        = (b \<or> (\<exists>j < length (children g). j \<noteq> i \<and> clipMask (children g ! j))))"
proof (intro conjI impI)
  show "fst (isClipped g) = (\<exists>it \<in> set (children g). clipMask it)" by (rule isClipped_value)
  show "clipItems (snd (isClipped g)) = Some (filter clipMask (children g))"
    by (rule isClipped_cache)
  show "fst (isClipped (g\<lparr>clipItems := cache\<rparr>)) = fst (isClipped g)"
    by (simp add: isClipped_value)
  assume i: "i < length (children g)"
  have "fst (isClipped (changed H C flags
               (g\<lparr>children := (children g)[i := setClipMask b (children g ! i)]\<rparr>)))
        = (\<exists>it \<in> set ((children g)[i := setClipMask b (children g ! i)]). clipMask it)"
    by (simp add: isClipped_value children_changed)
  also have "\<dots> = (clipMask (setClipMask b (children g ! i))
                    \<or> (\<exists>j < length (children g). j \<noteq> i \<and> clipMask (children g ! j)))"
    by (rule Bex_list_update [OF i])
  finally show "fst (isClipped (changed H C flags
               (g\<lparr>children := (children g)[i := setClipMask b (children g ! i)]\<rparr>)))
        = (b \<or> (\<exists>j < length (children g). j \<noteq> i \<and> clipMask (children g ! j)))"
    by (simp add: setClipMask_def)
qed

theorem isClipped_iff_clip_mask_child_witness:
  "fst (isClipped mixed_group)
   \<and> (1::nat) < length (children mixed_group)
   \<and> \<not> fst (isClipped (changed 2 256 256
             (mixed_group\<lparr>children :=
                (children mixed_group)[1 := setClipMask False (children mixed_group ! 1)]\<rparr>)))"
proof -
  have i: "(1::nat) < length (children mixed_group)" by (simp add: mixed_group_def)
  note t = isClipped_iff_clip_mask_child [of mixed_group None 1 2 256 256 False]
  have a: "fst (isClipped mixed_group)"
    unfolding t [THEN conjunct1] by (simp add: mixed_group_def)
  have rhs: "\<not> (False \<or> (\<exists>j < length (children mixed_group). j \<noteq> 1 \<and> clipMask (children mixed_group ! j)))"
  proof -
    have "\<And>j. j < length (children mixed_group) \<Longrightarrow> j \<noteq> 1 \<Longrightarrow>
            \<not> clipMask (children mixed_group ! j)"
    proof -
      fix j :: nat
      assume "j < length (children mixed_group)" "j \<noteq> 1"
      then have "j = 0 \<or> j = 2 \<or> j = 3" by (auto simp: mixed_group_def)
      then show "\<not> clipMask (children mixed_group ! j)"
        by (auto simp: mixed_group_def numeral_2_eq_2 numeral_3_eq_3)
    qed
    then show ?thesis by blast
  qed
  from t [THEN conjunct2, THEN conjunct2, THEN conjunct2, rule_format, OF i] rhs
  have b: "\<not> fst (isClipped (changed 2 256 256
             (mixed_group\<lparr>children :=
                (children mixed_group)[1 := setClipMask False (children mixed_group ! 1)]\<rparr>)))"
    by simp
  from a i b show ?thesis by (intro conjI)
qed

section \<open>Group: degenerate stroke bounds\<close>

lemma Group_draw_aborts:
  assumes "\<exists>m \<in> set (children g). clipMask m"
      and "width (strokeBounds g) = 0 \<or> height (strokeBounds g) = 0"
  shows "Group_draw d g c p = (g\<lparr>clipItems := Some (filter clipMask (children g))\<rparr>, c, p)"
proof -
  from assms(1) have "filter clipMask (children g) \<noteq> []" by (simp add: filter_empty_conv)
  with assms(2) show ?thesis
    by (auto simp: Group_draw_def getClipItems_def getClipItems_loop_filter Let_def)
qed

lemma Group_draw_no_children:
  assumes "children g = []"
  shows "Group_draw d g c p = (g\<lparr>clipItems := Some []\<rparr>, c, p)"
  using assms by (simp add: Group_draw_def getClipItems_def Let_def)

text \<open>
  C8, as the code has it. The stroke bounds are looked at only when the group has a
  clip-mask child: such a group with bounds of zero width or zero height returns before
  any child is drawn, leaving surface and parameters as they were; a group without
  children paints nothing whatever its bounds. (A group without clip mask is not subject
  to the check.)
\<close>

theorem degenerate_clipped_group_paints_nothing:
  "((\<exists>m \<in> set (children g). clipMask m) \<and>
      (width (strokeBounds g) = 0 \<or> height (strokeBounds g) = 0) \<longrightarrow>
      Group_draw d g c p = (g\<lparr>clipItems := Some (filter clipMask (children g))\<rparr>, c, p))
   \<and> (children g = [] \<longrightarrow> Group_draw d g c p = (g\<lparr>clipItems := Some []\<rparr>, c, p))"
  using Group_draw_aborts [of g d c p] Group_draw_no_children [of g d c p] by blast

theorem degenerate_clipped_group_paints_nothing_witness:
  "(\<exists>m \<in> set (children (mixed_group\<lparr>strokeBounds := strokeBounds flat_group\<rparr>)). clipMask m)
   \<and> width (strokeBounds (mixed_group\<lparr>strokeBounds := strokeBounds flat_group\<rparr>)) = 0
   \<and> painted (fst (snd (Group_draw item_draw (mixed_group\<lparr>strokeBounds := strokeBounds flat_group\<rparr>)
        blank_ctx \<lparr>offset = None\<rparr>))) = []
   \<and> children (flat_group\<lparr>children := []\<rparr>) = []
   \<and> painted (fst (snd (Group_draw item_draw (flat_group\<lparr>children := []\<rparr>)
        blank_ctx \<lparr>offset = None\<rparr>))) = []"
proof -
  let ?g = "mixed_group\<lparr>strokeBounds := strokeBounds flat_group\<rparr>"
  let ?e = "flat_group\<lparr>children := []\<rparr>"
  have m: "\<exists>m \<in> set (children ?g). clipMask m" by (simp add: mixed_group_def)
  have w: "width (strokeBounds ?g) = 0" by (simp add: flat_group_def)
  have e: "children ?e = []" by simp
  note t1 = degenerate_clipped_group_paints_nothing
      [of ?g item_draw blank_ctx "\<lparr>offset = None\<rparr>", THEN conjunct1, rule_format]
  note t2 = degenerate_clipped_group_paints_nothing
      [of ?e item_draw blank_ctx "\<lparr>offset = None\<rparr>", THEN conjunct2, rule_format, OF e]
  from m w have "Group_draw item_draw ?g blank_ctx \<lparr>offset = None\<rparr>
      = (?g\<lparr>clipItems := Some (filter clipMask (children ?g))\<rparr>, blank_ctx, \<lparr>offset = None\<rparr>)"
    by (intro t1 conjI disjI1)
  then have a: "painted (fst (snd (Group_draw item_draw ?g blank_ctx \<lparr>offset = None\<rparr>))) = []"
    by (simp add: blank_ctx_def)
  from t2 have b: "painted (fst (snd (Group_draw item_draw ?e blank_ctx \<lparr>offset = None\<rparr>))) = []"
    by (simp add: blank_ctx_def)
  from m w a e b show ?thesis by (intro conjI)
qed

text \<open>
  C8 as stated fails: a group without clip mask whose stroke bounds have zero width draws
  its child.
\<close>

theorem degenerate_unclipped_group_is_drawn:
  "width (strokeBounds flat_group) = 0
   \<and> painted (fst (snd (Group_draw item_draw flat_group blank_ctx \<lparr>offset = None\<rparr>)))
       = [ItemDrawn \<lparr>ident = ''rule'', clipMask = False, clippable = True\<rparr> ''source-over'']"
  by (simp add: flat_group_def blank_ctx_def Group_draw_def getClipItems_def Let_def item_draw_def)

section \<open>Group: setting the clipped status\<close>

text \<open>
  C10. \<^verbatim>\<open>setClipped\<close> on a group without children changes nothing; otherwise it sets the
  clip-mask flag of the first child to the given value and leaves the other flag of that
  child, every other child and the rest of the group as they were.
\<close>

theorem setClipped_first_child_only:
  "(children g = [] \<longrightarrow> setClipped b g = g)
   \<and> (\<forall>ch rest. children g = ch # rest \<longrightarrow>
         setClipped b g = g\<lparr>children := ch\<lparr>clipMask := b\<rparr> # rest\<rparr>)
   \<and> length (children (setClipped b g)) = length (children g)
   \<and> (\<forall>i. 0 < i \<and> i < length (children g) \<longrightarrow>
         children (setClipped b g) ! i = children g ! i)
   \<and> (children g \<noteq> [] \<longrightarrow>
         clipMask (hd (children (setClipped b g))) = b \<and>
         clippable (hd (children (setClipped b g))) = clippable (hd (children g)) \<and>
         ident (hd (children (setClipped b g))) = ident (hd (children g)))"
  by (cases "children g") (auto simp: setClipped_def setClipMask_def nth_Cons')

theorem setClipped_first_child_only_witness:
  "children (flat_group\<lparr>children := []\<rparr>) = []
   \<and> setClipped True (flat_group\<lparr>children := []\<rparr>) = flat_group\<lparr>children := []\<rparr>
   \<and> children mixed_group \<noteq> []
   \<and> map clipMask (children (setClipped True mixed_group)) = [True, True, False, False]
   \<and> map clippable (children (setClipped True mixed_group)) = [False, True, True, False]"
proof -
  let ?e = "flat_group\<lparr>children := []\<rparr>"
  have e: "children ?e = []" by simp
  have n: "children mixed_group \<noteq> []" by (simp add: mixed_group_def)
  have c: "children mixed_group =
      \<lparr>ident = ''label'', clipMask = False, clippable = False\<rparr> #
      [\<lparr>ident = ''eraser'', clipMask = True, clippable = True\<rparr>,
       \<lparr>ident = ''stroke'', clipMask = False, clippable = True\<rparr>,
       \<lparr>ident = ''cursor'', clipMask = False, clippable = False\<rparr>]"
    by (simp add: mixed_group_def)
  from setClipped_first_child_only [of ?e True, THEN conjunct1, rule_format, OF e]
  have a: "setClipped True ?e = ?e" .
  from setClipped_first_child_only [of mixed_group True, THEN conjunct2, THEN conjunct1,
      rule_format, OF c]
  have "children (setClipped True mixed_group) =
      \<lparr>ident = ''label'', clipMask = False, clippable = False\<rparr>\<lparr>clipMask := True\<rparr> #
      [\<lparr>ident = ''eraser'', clipMask = True, clippable = True\<rparr>,
       \<lparr>ident = ''stroke'', clipMask = False, clippable = True\<rparr>,
       \<lparr>ident = ''cursor'', clipMask = False, clippable = False\<rparr>]"
    by simp
  then have m: "map clipMask (children (setClipped True mixed_group)) = [True, True, False, False]"
    and k: "map clippable (children (setClipped True mixed_group)) = [False, True, True, False]"
    by simp_all
  from e a n m k show ?thesis by (intro conjI)
qed

section \<open>AreaText: the style setters\<close>

text \<open>
  C3 at \<^verbatim>\<open>setColorStyle('red', 'blue')\<close>: the canonical stroke colour is blue and the
  cached stroke colour is red, the fill colour, since the last assignment of
  \<^verbatim>\<open>setColorStyle\<close> stores \<^verbatim>\<open>color\<close> and not \<^verbatim>\<open>strokeColor\<close>.
\<close>

theorem setColorStyle_caches_fill_as_stroke:
  "strokeColor (style (setColorStyle (Some ''red'') (Some ''blue'') sample_region)) = Some ''blue''
   \<and> cssStrokeColor (setColorStyle (Some ''red'') (Some ''blue'') sample_region) = Some ''red''
   \<and> fillColor (style (setColorStyle (Some ''red'') (Some ''blue'') sample_region)) = Some ''red''
   \<and> cssFillColor (setColorStyle (Some ''red'') (Some ''blue'') sample_region) = Some ''red''"
  by (simp add: setColorStyle_def)

lemma setColorStyle_slots:
  "fillColor (style (setColorStyle col scol a)) = col"
  "strokeColor (style (setColorStyle col scol a)) = scol"
  "cssFillColor (setColorStyle col scol a) = col"
  "cssStrokeColor (setColorStyle col scol a) = col"
  by (simp_all add: setColorStyle_def)

text \<open>
  The call without arguments keeps the canonical colours and caches the fill colour for
  both; that of \<^verbatim>\<open>setFontStyle\<close> keeps leading and family.
\<close>

lemma setColorStyle_noargs_slots:
  "style (setColorStyle_noargs a) = style a"
  "cssFillColor (setColorStyle_noargs a) = fillColor (style a)"
  "cssStrokeColor (setColorStyle_noargs a) = fillColor (style a)"
  by (simp_all add: setColorStyle_noargs_def setColorStyle_def)

lemma setFontStyle_noargs_slots:
  "leading (style (setFontStyle_noargs a)) = leading (style a)"
  "font (style (setFontStyle_noargs a)) = font (style a)"
  "fontSize (style a) = Some (Px n) \<Longrightarrow> setFontStyle_noargs a = a"
  by (simp_all add: setFontStyle_noargs_def)

text \<open>
  C9, as the code has it. The leading is \<open>fontSize * 1.2\<close> when it is left out or is 0
  (falsy), and the given value otherwise; the font family is replaced by a non-empty
  given family and kept otherwise; the font size is stored with the unit px.
\<close>

theorem setFontStyle_stores:
  "(l = None \<or> l = Some 0 \<longrightarrow> leading (style (setFontStyle n l f a)) = of_int n * 1.2)
   \<and> (\<forall>x. l = Some x \<and> x \<noteq> 0 \<longrightarrow> leading (style (setFontStyle n l f a)) = x)
   \<and> (f = None \<or> f = Some [] \<longrightarrow> font (style (setFontStyle n l f a)) = font (style a))
   \<and> (\<forall>x. f = Some x \<and> x \<noteq> [] \<longrightarrow> font (style (setFontStyle n l f a)) = x)
   \<and> fontSize (style (setFontStyle n l f a)) = Some (Px n)"
  by (auto simp: setFontStyle_def Let_def split: option.splits)

theorem setFontStyle_stores_witness:
  "leading (style (setFontStyle 10 None (Some []) sample_region)) = 12
   \<and> font (style (setFontStyle 10 None (Some []) sample_region)) = ''serif''
   \<and> leading (style (setFontStyle 10 (Some 15) (Some ''mono'') sample_region)) = 15
   \<and> font (style (setFontStyle 10 (Some 15) (Some ''mono'') sample_region)) = ''mono''
   \<and> fontSize (style (setFontStyle 10 (Some 15) (Some ''mono'') sample_region)) = Some (Px 10)"
proof -
  note t1 = setFontStyle_stores [where l = None and f = "Some []" and n = 10 and a = sample_region]
  note t2 = setFontStyle_stores [where l = "Some 15" and f = "Some ''mono''" and n = 10 and a = sample_region]
  have a: "leading (style (setFontStyle 10 None (Some []) sample_region)) = 12"
    using t1 by simp
  have b: "font (style (setFontStyle 10 None (Some []) sample_region)) = ''serif''"
    using t1 by (simp add: sample_region_def)
  have c: "leading (style (setFontStyle 10 (Some 15) (Some ''mono'') sample_region)) = 15"
    using t2 by simp
  have d: "font (style (setFontStyle 10 (Some 15) (Some ''mono'') sample_region)) = ''mono''"
    using t2 by simp
  have e: "fontSize (style (setFontStyle 10 (Some 15) (Some ''mono'') sample_region)) = Some (Px 10)"
    using t2 by simp
  from a b c d e show ?thesis by (intro conjI)
qed

text \<open>
  C9 as stated fails: a leading of 0 that is supplied is not stored; the default is.
\<close>

theorem setFontStyle_zero_leading_replaced:
  "leading (style (setFontStyle 10 (Some 0) None sample_region)) = 12
   \<and> leading (style (setFontStyle 10 (Some 0) None sample_region)) \<noteq> 0"
  by (simp add: setFontStyle_def)

section \<open>AreaText: the wrapping loop\<close>

text \<open>The four ways one round of the loop of \<^verbatim>\<open>testLine\<close> goes.\<close>

lemma testLine_loop_end:
  "\<not> n < length words \<Longrightarrow> testLine_loop mt a words sep n line s = Some (line, s)"
  by (subst testLine_loop.simps) simp

lemma testLine_loop_fit:
  "n < length words \<Longrightarrow> \<not> mt (ctx_font (ctx s)) (join sep (line @ [words ! n])) > width (bounds a) \<Longrightarrow>
   testLine_loop mt a words sep n line s = testLine_loop mt a words sep (Suc n) (line @ [words ! n]) s"
  by (subst testLine_loop.simps) (simp add: Let_def)

lemma testLine_loop_break:
  "n < length words \<Longrightarrow> mt (ctx_font (ctx s)) (join sep (line @ [words ! n])) > width (bounds a) \<Longrightarrow>
   line \<noteq> [] \<Longrightarrow>
   testLine_loop mt a words sep n line s =
     testLine_loop mt a words sep n [] (writeLine a (join sep line) s)"
  by (subst testLine_loop.simps) (simp add: Let_def)

lemma testLine_loop_chars:
  "n < length words \<Longrightarrow> mt (ctx_font (ctx s)) (words ! n) > width (bounds a) \<Longrightarrow>
   testLine_loop mt a words sep n [] s =
     Option.bind (testLine_loop mt a (map (\<lambda>ch. [ch]) (words ! n)) [] 0 [] s)
       (\<lambda>r. testLine_loop mt a words sep (Suc n) [] (writeLine a (join [] (fst r)) (snd r)))"
  by (subst testLine_loop.simps) (simp add: Let_def)

lemma testLine_loop_invariant:
  assumes refl: "\<And>a s. R a s s"
      and trans: "\<And>a s t u. R a s t \<Longrightarrow> R a t u \<Longrightarrow> R a s u"
      and wl: "\<And>a l s. R a s (writeLine a l s)"
      and res: "testLine_loop mt a words sep n line s = Some r"
  shows "R a s (snd r)"
proof (rule testLine_loop.raw_induct
    [where P = "\<lambda>mt a words sep n line s r. R a s (snd r)", OF _ res])
  fix f :: "(font_desc \<Rightarrow> string \<Rightarrow> real) \<Rightarrow> area_text \<Rightarrow> string list \<Rightarrow> string \<Rightarrow> nat
      \<Rightarrow> string list \<Rightarrow> draw_state \<Rightarrow> (string list \<times> draw_state) option"
  fix mt a words sep n line s r
  assume IH: "\<And>mt a words sep n line s y. f mt a words sep n line s = Some y \<Longrightarrow> R a s (snd y)"
  assume body:
    "(if n < length words
      then let line1 = line @ [words ! n]
           in if width (bounds a) < mt (ctx_font (ctx s)) (join sep line1)
              then let word = last line1; line2 = butlast line1
                   in if 0 < length line2
                      then f mt a words sep n [] (writeLine a (join sep line2) s)
                      else Option.bind (f mt a (map (\<lambda>ch. [ch]) word) [] 0 [] s)
                             (\<lambda>r. f mt a words sep (Suc n) []
                                    (writeLine a (join [] (fst r)) (snd r)))
              else f mt a words sep (Suc n) line1 s
      else Some (line, s)) = Some r"
  show "R a s (snd r)"
  proof (cases "n < length words")
    case False
    with body show ?thesis by (auto simp: refl)
  next
    case inb: True
    show ?thesis
    proof (cases "width (bounds a) < mt (ctx_font (ctx s)) (join sep (line @ [words ! n]))")
      case False
      with inb body have "f mt a words sep (Suc n) (line @ [words ! n]) s = Some r"
        by (simp add: Let_def)
      then show ?thesis by (rule IH)
    next
      case wide: True
      show ?thesis
      proof (cases "line = []")
        case False
        with inb wide body
        have "f mt a words sep n [] (writeLine a (join sep line) s) = Some r"
          by (simp add: Let_def)
        then have "R a (writeLine a (join sep line) s) (snd r)" by (rule IH)
        with wl show ?thesis by (rule trans)
      next
        case True
        with inb wide body obtain y where
          y: "f mt a (map (\<lambda>ch. [ch]) (words ! n)) [] 0 [] s = Some y" and
          k: "f mt a words sep (Suc n) [] (writeLine a (join [] (fst y)) (snd y)) = Some r"
          by (auto simp: Let_def bind_eq_Some_conv)
        from y have 1: "R a s (snd y)" by (rule IH)
        from k have 2: "R a (writeLine a (join [] (fst y)) (snd y)) (snd r)" by (rule IH)
        from 1 trans [OF wl 2] show ?thesis by (rule trans)
      qed
    qed
  qed
qed

lemma testLine_loop_wide_char:
  assumes wide: "mt (ctx_font (ctx s)) [ch] > width (bounds a)"
  shows "testLine_loop mt a [[ch]] [] 0 [] s = None"
proof (rule ccontr)
  assume "testLine_loop mt a [[ch]] [] 0 [] s \<noteq> None"
  then obtain r where res: "testLine_loop mt a [[ch]] [] 0 [] s = Some r" by auto
  have "\<not> (mt = mt \<and> a = a \<and> [[ch]] = [[ch]] \<and> ([]::string) = [] \<and> (0::nat) = 0
            \<and> ([]::string list) = [] \<and> s = s)"
  proof (rule testLine_loop.raw_induct
      [where P = "\<lambda>mt' a' words sep n line s' r.
         \<not> (mt' = mt \<and> a' = a \<and> words = [[ch]] \<and> sep = [] \<and> n = 0 \<and> line = [] \<and> s' = s)",
       OF _ res])
    fix f :: "(font_desc \<Rightarrow> string \<Rightarrow> real) \<Rightarrow> area_text \<Rightarrow> string list \<Rightarrow> string \<Rightarrow> nat
        \<Rightarrow> string list \<Rightarrow> draw_state \<Rightarrow> (string list \<times> draw_state) option"
    fix mt' a' words sep n line s' r
    assume IH: "\<And>mt' a' words sep n line s' y. f mt' a' words sep n line s' = Some y \<Longrightarrow>
      \<not> (mt' = mt \<and> a' = a \<and> words = [[ch]] \<and> sep = [] \<and> n = 0 \<and> line = [] \<and> s' = s)"
    assume body:
      "(if n < length words
        then let line1 = line @ [words ! n]
             in if width (bounds a') < mt' (ctx_font (ctx s')) (join sep line1)
                then let word = last line1; line2 = butlast line1
                     in if 0 < length line2
                        then f mt' a' words sep n [] (writeLine a' (join sep line2) s')
                        else Option.bind (f mt' a' (map (\<lambda>ch. [ch]) word) [] 0 [] s')
                               (\<lambda>r. f mt' a' words sep (Suc n) []
                                      (writeLine a' (join [] (fst r)) (snd r)))
                else f mt' a' words sep (Suc n) line1 s'
        else Some (line, s')) = Some r"
    show "\<not> (mt' = mt \<and> a' = a \<and> words = [[ch]] \<and> sep = [] \<and> n = 0 \<and> line = [] \<and> s' = s)"
    proof
      assume bad: "mt' = mt \<and> a' = a \<and> words = [[ch]] \<and> sep = [] \<and> n = 0 \<and> line = [] \<and> s' = s"
      with body wide obtain y where "f mt a [[ch]] [] 0 [] s = Some y"
        by (auto simp: Let_def bind_eq_Some_conv)
      from IH [OF this] show False by simp
    qed
  qed
  then show False by simp
qed

lemma writeLine_overflow:
  "currentHeight s + leading (style a) > height (bounds a) \<Longrightarrow> writeLine a l s = s"
  by (simp add: writeLine_def)

lemma writeLine_font [simp]: "ctx_font (ctx (writeLine a l s)) = ctx_font (ctx s)"
  by (simp add: writeLine_def Let_def fillText_def strokeText_def translate_def)

lemma fold_writeLine_overflow:
  "currentHeight s + leading (style a) > height (bounds a) \<Longrightarrow> fold (writeLine a) ls s = s"
  by (induction ls) (simp_all add: writeLine_overflow)

lemma testLine_loop_overflow:
  assumes "testLine_loop mt a words sep n line s = Some r"
      and "currentHeight s + leading (style a) > height (bounds a)"
  shows "snd r = s"
proof -
  have "currentHeight s + leading (style a) > height (bounds a) \<longrightarrow> snd r = s"
    by (rule testLine_loop_invariant
        [where R = "\<lambda>a s s'. currentHeight s + leading (style a) > height (bounds a) \<longrightarrow> s' = s",
         OF _ _ _ assms(1)])
       (simp_all add: writeLine_overflow)
  with assms(2) show ?thesis by simp
qed

lemma draw_lines_overflow:
  assumes "currentHeight s + leading (style a) > height (bounds a)"
      and "draw_lines mt a lns s = Some s'"
  shows "s' = s"
  using assms(2)
proof (induction lns)
  case Nil
  then show ?case by simp
next
  case (Cons l ls)
  from Cons.prems obtain r where
    r: "testLine_loop mt a (split CHR '' '' l) '' '' 0 [] s = Some r" and
    k: "draw_lines mt a ls
          (if length (fst r) > 0 then writeLine a (join '' '' (fst r)) (snd r) else snd r) = Some s'"
    by (auto simp: testLine_def bind_eq_Some_conv)
  from testLine_loop_overflow [OF r assms(1)] have "snd r = s" .
  with k assms(1) have "draw_lines mt a ls s = Some s'"
    by (simp add: writeLine_overflow split: if_splits)
  then show ?case by (rule Cons.IH)
qed

text \<open>
  C2. Once the cursor plus the leading exceeds the height of the box, \<^verbatim>\<open>writeLine\<close>
  returns without painting and without moving the cursor; so does every later
  \<^verbatim>\<open>writeLine\<close> of the same draw call, whatever lines \<^verbatim>\<open>testLine\<close> and the loop over the
  logical lines still emit: the surface and the cursor stay as they were at the first
  overflow.
\<close>

theorem vertical_overflow_sticky:
  assumes "currentHeight s + leading (style a) > height (bounds a)"
  shows "writeLine a l s = s
       \<and> fold (writeLine a) ls s = s
       \<and> (\<forall>r. testLine mt a words sep s = Some r \<longrightarrow> snd r = s)
       \<and> (\<forall>s'. draw_lines mt a lns s = Some s' \<longrightarrow> s' = s)"
proof (intro conjI allI impI)
  show "writeLine a l s = s" using assms by (rule writeLine_overflow)
  show "fold (writeLine a) ls s = s" using assms by (rule fold_writeLine_overflow)
  show "snd r = s" if "testLine mt a words sep s = Some r" for r
    using that assms unfolding testLine_def by (rule testLine_loop_overflow)
  show "s' = s" if "draw_lines mt a lns s = Some s'" for s'
    using assms that by (rule draw_lines_overflow)
qed

lemma draw_lines_aaa_bbb_ccc:
  assumes "mt (ctx_font (ctx s)) ''aaa bbb'' > width (bounds a)"
      and "mt (ctx_font (ctx s)) ''aaa'' \<le> width (bounds a)"
      and "mt (ctx_font (ctx s)) ''bbb'' \<le> width (bounds a)"
      and "mt (ctx_font (ctx s)) ''bbb ccc'' \<le> width (bounds a)"
  shows "draw_lines mt a [''aaa bbb ccc''] s = Some (writeLine a ''bbb ccc'' (writeLine a ''aaa'' s))"
proof -
  have sp: "split CHR '' '' ''aaa bbb ccc'' = [''aaa'', ''bbb'', ''ccc'']" by simp
  have "testLine_loop mt a [''aaa'', ''bbb'', ''ccc''] '' '' 0 [] s
      = testLine_loop mt a [''aaa'', ''bbb'', ''ccc''] '' '' (Suc 0) [''aaa''] s"
    using assms(2) by (simp add: testLine_loop_fit)
  also have "\<dots> = testLine_loop mt a [''aaa'', ''bbb'', ''ccc''] '' '' (Suc 0) []
                     (writeLine a ''aaa'' s)"
    using assms(1) by (simp add: testLine_loop_break)
  also have "\<dots> = testLine_loop mt a [''aaa'', ''bbb'', ''ccc''] '' '' (Suc (Suc 0)) [''bbb'']
                     (writeLine a ''aaa'' s)"
    using assms(3) by (simp add: testLine_loop_fit)
  also have "\<dots> = testLine_loop mt a [''aaa'', ''bbb'', ''ccc''] '' '' (Suc (Suc (Suc 0)))
                     [''bbb'', ''ccc''] (writeLine a ''aaa'' s)"
    using assms(4) by (simp add: testLine_loop_fit)
  also have "\<dots> = Some ([''bbb'', ''ccc''], writeLine a ''aaa'' s)"
    by (simp add: testLine_loop_end)
  finally show ?thesis by (simp add: testLine_def sp)
qed

text \<open>
  C4. When the candidate with the word at index \<open>n\<close> is wider than the box and the
  candidate without it is not empty, the candidate without it is written as a line and
  the loop goes on at the same index \<open>n\<close> with an empty candidate, so the word is
  processed again. For the logical line "aaa bbb ccc" with "aaa bbb" wider than the box
  and "aaa", "bbb" and "bbb ccc" not wider, the draw loop writes "aaa" and then "bbb ccc".
  (That "bbb" fits follows from "bbb ccc" fitting for every measurement that does not
  shrink when text is appended.)
\<close>

theorem wrap_reprocesses_overflowing_word:
  "(n < length words \<and> line \<noteq> [] \<and>
      mt (ctx_font (ctx s)) (join sep (line @ [words ! n])) > width (bounds a) \<longrightarrow>
      testLine_loop mt a words sep n line s =
        testLine_loop mt a words sep n [] (writeLine a (join sep line) s))
   \<and> (mt (ctx_font (ctx s)) ''aaa bbb'' > width (bounds a) \<and>
       mt (ctx_font (ctx s)) ''aaa'' \<le> width (bounds a) \<and>
       mt (ctx_font (ctx s)) ''bbb'' \<le> width (bounds a) \<and>
       mt (ctx_font (ctx s)) ''bbb ccc'' \<le> width (bounds a) \<longrightarrow>
       draw_lines mt a [''aaa bbb ccc''] s =
         Some (writeLine a ''bbb ccc'' (writeLine a ''aaa'' s)))"
  using testLine_loop_break [where n = n and words = words and mt = mt and s = s and sep = sep
      and line = line and a = a]
    draw_lines_aaa_bbb_ccc [where a = a and mt = mt and s = s]
  by blast

lemma weighted_width_values:
  "weighted_width f ''aaa bbb'' = 10" "weighted_width f ''aaa'' = 6"
  "weighted_width f ''bbb'' = 3" "weighted_width f ''bbb ccc'' = 7"
  by (simp_all add: weighted_width_def)

theorem vertical_overflow_sticky_witness:
  "currentHeight full_state + leading (style sample_region) > height (bounds sample_region)
   \<and> writeLine sample_region ''aaa'' full_state = full_state
   \<and> draw_lines weighted_width sample_region [''aaa bbb ccc''] full_state = Some full_state"
proof -
  have o: "currentHeight full_state + leading (style sample_region) > height (bounds sample_region)"
    by (simp add: full_state_def sample_region_def)
  note t = vertical_overflow_sticky [OF o, of "''aaa''" "[''aaa'', ''bbb ccc'']" weighted_width
      "[''aaa'', ''bbb'', ''ccc'']" "'' ''" "[''aaa bbb ccc'']"]
  have w: "width (bounds sample_region) = 8" by (simp add: sample_region_def)
  have "draw_lines weighted_width sample_region [''aaa bbb ccc''] full_state =
          Some (writeLine sample_region ''bbb ccc'' (writeLine sample_region ''aaa'' full_state))"
    by (rule draw_lines_aaa_bbb_ccc) (simp_all add: weighted_width_values w)
  with t have d: "draw_lines weighted_width sample_region [''aaa bbb ccc''] full_state = Some full_state"
    by simp
  from t have a: "writeLine sample_region ''aaa'' full_state = full_state" by (rule conjunct1)
  from o a d show ?thesis by (intro conjI)
qed

theorem wrap_reprocesses_overflowing_word_witness:
  "(Suc 0 < length [''aaa'', ''bbb'', ''ccc''] \<and> [''aaa''] \<noteq> [] \<and>
     weighted_width (ctx_font (ctx \<lparr>ctx = blank_ctx, currentHeight = 0\<rparr>))
       (join '' '' ([''aaa''] @ [[''aaa'', ''bbb'', ''ccc''] ! Suc 0])) > width (bounds sample_region))
   \<and> testLine_loop weighted_width sample_region [''aaa'', ''bbb'', ''ccc''] '' '' (Suc 0) [''aaa'']
        \<lparr>ctx = blank_ctx, currentHeight = 0\<rparr>
      = testLine_loop weighted_width sample_region [''aaa'', ''bbb'', ''ccc''] '' '' (Suc 0) []
          (writeLine sample_region ''aaa'' \<lparr>ctx = blank_ctx, currentHeight = 0\<rparr>)
   \<and> weighted_width (ctx_font blank_ctx) ''aaa bbb'' > width (bounds sample_region)
   \<and> weighted_width (ctx_font blank_ctx) ''aaa'' \<le> width (bounds sample_region)
   \<and> weighted_width (ctx_font blank_ctx) ''bbb'' \<le> width (bounds sample_region)
   \<and> weighted_width (ctx_font blank_ctx) ''bbb ccc'' \<le> width (bounds sample_region)
   \<and> map_option (painted \<circ> ctx)
        (draw_lines weighted_width sample_region [''aaa bbb ccc''] \<lparr>ctx = blank_ctx, currentHeight = 0\<rparr>)
      = Some [FillText ''aaa'' 0 0, FillText ''bbb ccc'' 0 12]"
proof -
  let ?s = "\<lparr>ctx = blank_ctx, currentHeight = 0\<rparr>"
  note t = wrap_reprocesses_overflowing_word [where n = "Suc 0" and words = "[''aaa'', ''bbb'', ''ccc'']"
      and line = "[''aaa'']" and mt = weighted_width and s = ?s and sep = "'' ''" and a = sample_region]
  have w: "width (bounds sample_region) = 8" by (simp add: sample_region_def)
  have h1: "Suc 0 < length [''aaa'', ''bbb'', ''ccc'']" and h2: "[''aaa''] \<noteq> []"
    and h3: "weighted_width (ctx_font (ctx ?s))
       (join '' '' ([''aaa''] @ [[''aaa'', ''bbb'', ''ccc''] ! Suc 0])) > width (bounds sample_region)"
    by (simp_all add: weighted_width_values w)
  have c1: "testLine_loop weighted_width sample_region [''aaa'', ''bbb'', ''ccc''] '' '' (Suc 0) [''aaa''] ?s
      = testLine_loop weighted_width sample_region [''aaa'', ''bbb'', ''ccc''] '' '' (Suc 0) []
          (writeLine sample_region ''aaa'' ?s)"
    using t [THEN conjunct1, rule_format, OF conjI [OF h1 conjI [OF h2 h3]]] by simp
  have a: "weighted_width (ctx_font blank_ctx) ''aaa bbb'' > width (bounds sample_region)"
    and b: "weighted_width (ctx_font blank_ctx) ''aaa'' \<le> width (bounds sample_region)"
    and c: "weighted_width (ctx_font blank_ctx) ''bbb'' \<le> width (bounds sample_region)"
    and d: "weighted_width (ctx_font blank_ctx) ''bbb ccc'' \<le> width (bounds sample_region)"
    by (simp_all add: weighted_width_values w)
  from a b c d have "draw_lines weighted_width sample_region [''aaa bbb ccc''] ?s =
         Some (writeLine sample_region ''bbb ccc'' (writeLine sample_region ''aaa'' ?s))"
    by (intro t [THEN conjunct2, rule_format]) simp
  then have e: "map_option (painted \<circ> ctx)
        (draw_lines weighted_width sample_region [''aaa bbb ccc''] ?s)
      = Some [FillText ''aaa'' 0 0, FillText ''bbb ccc'' 0 12]"
    by (simp add: writeLine_def sample_region_def blank_ctx_def fillText_def translate_def Let_def)
  from h1 h2 h3 c1 a b c d e show ?thesis by (intro conjI)
qed

section \<open>AreaText: a word wider than the box\<close>

lemma chars_of_word: "map (\<lambda>ch. [ch]) ''XXXXXXXXXX'' =
    [''X'', ''X'', ''X'', ''X'', ''X'', ''X'', ''X'', ''X'', ''X'', ''X'']"
  by simp

text \<open>
  A word of ten letters X, alone on its logical line, of which four letters fit the box
  and five do not, is written as "XXXX", "XXXX" and "XX".
\<close>

lemma long_word_broken_by_character:
  assumes fit: "mt (ctx_font (ctx s)) ''X'' \<le> width (bounds a)"
      "mt (ctx_font (ctx s)) ''XX'' \<le> width (bounds a)"
      "mt (ctx_font (ctx s)) ''XXX'' \<le> width (bounds a)"
      "mt (ctx_font (ctx s)) ''XXXX'' \<le> width (bounds a)"
    and wide: "mt (ctx_font (ctx s)) ''XXXXX'' > width (bounds a)"
      "mt (ctx_font (ctx s)) ''XXXXXXXXXX'' > width (bounds a)"
  shows "draw_lines mt a [''XXXXXXXXXX''] s =
     Some (writeLine a ''XX'' (writeLine a ''XXXX'' (writeLine a ''XXXX'' s)))"
proof -
  let ?cs = "[''X'', ''X'', ''X'', ''X'', ''X'', ''X'', ''X'', ''X'', ''X'', ''X'']"
  have chars: "testLine_loop mt a ?cs [] 0 [] s =
      Some ([''X'', ''X''], writeLine a ''XXXX'' (writeLine a ''XXXX'' s))"
    using fit wide(1)
    by (simp add: testLine_loop_fit testLine_loop_break testLine_loop_end)
  have "testLine_loop mt a [''XXXXXXXXXX''] '' '' 0 [] s =
      Option.bind (testLine_loop mt a (map (\<lambda>ch. [ch]) ''XXXXXXXXXX'') [] 0 [] s)
        (\<lambda>r. testLine_loop mt a [''XXXXXXXXXX''] '' '' (Suc 0) []
               (writeLine a (join [] (fst r)) (snd r)))"
    using wide(2) by (simp add: testLine_loop_chars)
  also have "\<dots> = testLine_loop mt a [''XXXXXXXXXX''] '' '' (Suc 0) []
      (writeLine a ''XX'' (writeLine a ''XXXX'' (writeLine a ''XXXX'' s)))"
    by (simp only: chars_of_word chars) simp
  also have "\<dots> = Some ([], writeLine a ''XX'' (writeLine a ''XXXX'' (writeLine a ''XXXX'' s)))"
    by (simp add: testLine_loop_end)
  finally show ?thesis by (simp add: testLine_def)
qed

lemma long_word_unit_width:
  "map_option (painted \<circ> ctx)
     (draw_lines unit_width
        (sample_region\<lparr>bounds := \<lparr>topLeft_x = 5, topLeft_y = 7, width = 4, height = 100\<rparr>\<rparr>)
        [''XXXXXXXXXX''] \<lparr>ctx = blank_ctx, currentHeight = 0\<rparr>)
   = Some [FillText ''XXXX'' 0 0, FillText ''XXXX'' 0 12, FillText ''XX'' 0 24]"
proof -
  let ?a = "sample_region\<lparr>bounds := \<lparr>topLeft_x = 5, topLeft_y = 7, width = 4, height = 100\<rparr>\<rparr>"
  let ?s = "\<lparr>ctx = blank_ctx, currentHeight = 0\<rparr>"
  have "draw_lines unit_width ?a [''XXXXXXXXXX''] ?s =
     Some (writeLine ?a ''XX'' (writeLine ?a ''XXXX'' (writeLine ?a ''XXXX'' ?s)))"
    by (rule long_word_broken_by_character) (simp_all add: unit_width_def)
  then show ?thesis
    by (simp add: writeLine_def sample_region_def blank_ctx_def fillText_def translate_def Let_def)
qed

lemma testLine_wide_char:
  assumes "mt (ctx_font (ctx s)) [ch] > width (bounds a)"
  shows "testLine mt a [[ch]] sep s = None"
proof -
  have "testLine_loop mt a [[ch]] sep 0 [] s =
      Option.bind (testLine_loop mt a (map (\<lambda>c. [c]) ([[ch]] ! 0)) [] 0 [] s)
        (\<lambda>r. testLine_loop mt a [[ch]] sep (Suc 0) [] (writeLine a (join [] (fst r)) (snd r)))"
    using assms by (intro testLine_loop_chars) simp_all
  also have "\<dots> = None"
    using testLine_loop_wide_char [where mt = mt and a = a and s = s and ch = ch, OF assms]
    by simp
  finally show ?thesis by (simp add: testLine_def)
qed

text \<open>
  C5 at a box narrower than one letter: the text is the letter W of width 1 in a box of
  width 1/2. \<^verbatim>\<open>testLine\<close> calls itself on the one-letter word, and that call calls itself
  on the same one-letter word again, without end: the draw call never returns (in
  JavaScript the stack overflows), and no line is written.
\<close>

theorem draw_letter_wider_than_box_never_returns:
  "AreaText_draw unit_width narrow_region blank_ctx = None"
proof -
  let ?s = "\<lparr>ctx = translate (topLeft_x (bounds narrow_region) + 1)
                    (topLeft_y (bounds narrow_region) + of_int 10 - 1)
                    ((setStyles (style narrow_region) blank_ctx)
                       \<lparr>ctx_font := getFontStyle (style narrow_region),
                        textAlign := justification (style narrow_region)\<rparr>),
            currentHeight = 0\<rparr>"
  have "unit_width (ctx_font (ctx ?s)) ''W'' > width (bounds narrow_region)"
    by (simp add: unit_width_def narrow_region_def)
  then have "testLine unit_width narrow_region [''W''] '' '' ?s = None"
    by (rule testLine_wide_char)
  then have "draw_lines unit_width narrow_region [''W''] ?s = None"
    by simp
  then show ?thesis
    by (simp add: AreaText_draw_def narrow_region_def sample_region_def parseInt_fontSize_def Let_def)
qed

section \<open>The surface state after a draw\<close>

lemma draw_children_blend:
  assumes "\<forall>it \<in> set cs. \<not> clipMask it \<longrightarrow> keeps_blend d it"
  shows "globalCompositeOperation (snd (draw_children d blend has cs uncl c p))
           = globalCompositeOperation c
       \<and> set (fst (draw_children d blend has cs uncl c p))
           \<subseteq> set uncl \<union> {it \<in> set cs. \<not> clipMask it}"
  using assms
proof (induction cs arbitrary: uncl c)
  case Nil
  show ?case by simp
next
  case (Cons it rest)
  from Cons.prems have r: "\<forall>it \<in> set rest. \<not> clipMask it \<longrightarrow> keeps_blend d it" by simp
  note IH = Cons.IH [OF r]
  show ?case
  proof (cases "clipMask it")
    case True
    let ?c3 = "(d it (c\<lparr>globalCompositeOperation := blend\<rparr>) p)
                 \<lparr>globalCompositeOperation := globalCompositeOperation c\<rparr>"
    have s3: "globalCompositeOperation ?c3 = globalCompositeOperation c" by simp
    have "draw_children d blend has (it # rest) uncl c p = draw_children d blend has rest uncl ?c3 p"
      using True by (simp add: Let_def)
    with IH [of uncl ?c3] s3 True show ?thesis by auto
  next
    case False
    with Cons.prems have k: "keeps_blend d it" by simp
    show ?thesis
    proof (cases "has \<and> \<not> clippable it")
      case True
      with False have "draw_children d blend has (it # rest) uncl c p =
          draw_children d blend has rest (uncl @ [it]) c p" by simp
      with IH [of "uncl @ [it]" c] False show ?thesis by auto
    next
      case nd: False
      have s1: "globalCompositeOperation (d it c p) = globalCompositeOperation c"
        using k by (simp add: keeps_blend_def)
      from False nd have "draw_children d blend has (it # rest) uncl c p =
          draw_children d blend has rest uncl (d it c p) p" by auto
      with IH [of uncl "d it c p"] s1 False show ?thesis by auto
    qed
  qed
qed

lemma draw_unclippable_blend:
  assumes "\<forall>it \<in> set us. keeps_blend d it"
  shows "globalCompositeOperation (draw_unclippable d us c p) = globalCompositeOperation c"
  using assms
proof (induction us arbitrary: c)
  case Nil
  show ?case by simp
next
  case (Cons it rest)
  from Cons.prems have "globalCompositeOperation (d it c p) = globalCompositeOperation c"
    by (simp add: keeps_blend_def)
  with Cons.IH [of "d it c p"] Cons.prems show ?case by simp
qed

lemma draw_children_layout:
  assumes "\<forall>it \<in> set cs. keeps_layout d it"
  shows "layout (snd (draw_children d blend has cs uncl c p)) = layout c
       \<and> set (fst (draw_children d blend has cs uncl c p)) \<subseteq> set uncl \<union> set cs"
  using assms
proof (induction cs arbitrary: uncl c)
  case Nil
  show ?case by simp
next
  case (Cons it rest)
  from Cons.prems have k: "keeps_layout d it" and r: "\<forall>it \<in> set rest. keeps_layout d it"
    by simp_all
  note IH = Cons.IH [OF r]
  show ?case
  proof (cases "clipMask it")
    case True
    let ?c1 = "c\<lparr>globalCompositeOperation := blend\<rparr>"
    let ?c3 = "(d it ?c1 p)\<lparr>globalCompositeOperation := globalCompositeOperation c\<rparr>"
    from k have "layout (d it ?c1 p) = layout ?c1" by (simp add: keeps_layout_def)
    then have s3: "layout ?c3 = layout c" by (simp add: layout_def)
    have "draw_children d blend has (it # rest) uncl c p = draw_children d blend has rest uncl ?c3 p"
      using True by (simp add: Let_def)
    with IH [of uncl ?c3] s3 show ?thesis by auto
  next
    case False
    show ?thesis
    proof (cases "has \<and> \<not> clippable it")
      case True
      with False have "draw_children d blend has (it # rest) uncl c p =
          draw_children d blend has rest (uncl @ [it]) c p" by simp
      with IH [of "uncl @ [it]" c] show ?thesis by auto
    next
      case nd: False
      have s1: "layout (d it c p) = layout c" using k by (simp add: keeps_layout_def)
      from False nd have "draw_children d blend has (it # rest) uncl c p =
          draw_children d blend has rest uncl (d it c p) p" by auto
      with IH [of uncl "d it c p"] s1 show ?thesis by auto
    qed
  qed
qed

lemma draw_unclippable_layout:
  assumes "\<forall>it \<in> set us. keeps_layout d it"
  shows "layout (draw_unclippable d us c p) = layout c"
  using assms
proof (induction us arbitrary: c)
  case Nil
  show ?case by simp
next
  case (Cons it rest)
  from Cons.prems have "layout (d it c p) = layout c" by (simp add: keeps_layout_def)
  with Cons.IH [of "d it c p"] Cons.prems show ?case by simp
qed

lemma Group_draw_unfold:
  "fst (snd (Group_draw d g c p)) = c \<or>
   (\<exists>has p1. fst (snd (Group_draw d g c p)) =
      draw_unclippable d (fst (draw_children d (compositing g) has (children g) [] c p1))
        (snd (draw_children d (compositing g) has (children g) [] c p1)) p1)"
  by (auto simp: Group_draw_def getClipItems_def Let_def split_beta)

lemma Group_draw_blend:
  assumes "\<forall>it \<in> set (children g). \<not> clipMask it \<longrightarrow> keeps_blend d it"
  shows "globalCompositeOperation (fst (snd (Group_draw d g c p))) = globalCompositeOperation c"
  using Group_draw_unfold [of d g c p]
proof
  assume "fst (snd (Group_draw d g c p)) = c"
  then show ?thesis by simp
next
  assume "\<exists>has p1. fst (snd (Group_draw d g c p)) =
      draw_unclippable d (fst (draw_children d (compositing g) has (children g) [] c p1))
        (snd (draw_children d (compositing g) has (children g) [] c p1)) p1"
  then obtain has p1 where eq: "fst (snd (Group_draw d g c p)) =
      draw_unclippable d (fst (draw_children d (compositing g) has (children g) [] c p1))
        (snd (draw_children d (compositing g) has (children g) [] c p1)) p1" by blast
  let ?r = "draw_children d (compositing g) has (children g) [] c p1"
  note dc = draw_children_blend [OF assms, of "compositing g" has "[]" c p1]
  from dc assms have "\<forall>it \<in> set (fst ?r). keeps_blend d it" by auto
  then have "globalCompositeOperation (draw_unclippable d (fst ?r) (snd ?r) p1)
      = globalCompositeOperation (snd ?r)"
    by (rule draw_unclippable_blend)
  with dc eq show ?thesis by simp
qed

lemma Group_draw_layout:
  assumes "\<forall>it \<in> set (children g). keeps_layout d it"
  shows "layout (fst (snd (Group_draw d g c p))) = layout c"
  using Group_draw_unfold [of d g c p]
proof
  assume "fst (snd (Group_draw d g c p)) = c"
  then show ?thesis by simp
next
  assume "\<exists>has p1. fst (snd (Group_draw d g c p)) =
      draw_unclippable d (fst (draw_children d (compositing g) has (children g) [] c p1))
        (snd (draw_children d (compositing g) has (children g) [] c p1)) p1"
  then obtain has p1 where eq: "fst (snd (Group_draw d g c p)) =
      draw_unclippable d (fst (draw_children d (compositing g) has (children g) [] c p1))
        (snd (draw_children d (compositing g) has (children g) [] c p1)) p1" by blast
  let ?r = "draw_children d (compositing g) has (children g) [] c p1"
  note dc = draw_children_layout [OF assms, of "compositing g" has "[]" c p1]
  from dc assms have "\<forall>it \<in> set (fst ?r). keeps_layout d it" by auto
  then have "layout (draw_unclippable d (fst ?r) (snd ?r) p1) = layout (snd ?r)"
    by (rule draw_unclippable_layout)
  with dc eq show ?thesis by simp
qed

lemma item_draw_keeps: "keeps_blend item_draw it" "keeps_layout item_draw it"
  by (simp_all add: keeps_blend_def keeps_layout_def layout_def item_draw_def)

lemma writeLine_same_setup: "same_setup s (writeLine a l s)"
  by (simp add: same_setup_def writeLine_def Let_def fillText_def strokeText_def translate_def)

lemma testLine_loop_same_setup:
  assumes "testLine_loop mt a words sep n line s = Some r"
  shows "same_setup s (snd r)"
  by (rule testLine_loop_invariant [where R = "\<lambda>a. same_setup", OF _ _ _ assms])
     (simp_all add: writeLine_same_setup, simp_all add: same_setup_def)

lemma draw_lines_same_setup:
  assumes "draw_lines mt a lns s = Some s'"
  shows "same_setup s s'"
  using assms
proof (induction lns arbitrary: s)
  case Nil
  then show ?case by (simp add: same_setup_def)
next
  case (Cons l ls)
  from Cons.prems obtain r where
    r: "testLine_loop mt a (split CHR '' '' l) '' '' 0 [] s = Some r" and
    k: "draw_lines mt a ls
          (if length (fst r) > 0 then writeLine a (join '' '' (fst r)) (snd r) else snd r) = Some s'"
    by (auto simp: testLine_def bind_eq_Some_conv)
  from testLine_loop_same_setup [OF r] have 1: "same_setup s (snd r)" .
  have 2: "same_setup (snd r)
      (if length (fst r) > 0 then writeLine a (join '' '' (fst r)) (snd r) else snd r)"
    using writeLine_same_setup [of "snd r" a "join '' '' (fst r)"] by (simp add: same_setup_def)
  from Cons.IH [OF k] have 3: "same_setup
      (if length (fst r) > 0 then writeLine a (join '' '' (fst r)) (snd r) else snd r) s'" .
  from 1 2 3 show ?case unfolding same_setup_def by metis
qed

lemma lines_written_refl: "lines_written a 0 s s"
  by (simp add: lines_written_def same_setup_def)

lemma lines_written_trans:
  assumes "lines_written a m s t" "lines_written a n t u"
  shows "lines_written a (m + n) s u"
  using assms by (simp add: lines_written_def same_setup_def algebra_simps)

lemma writeLine_lines_written: "\<exists>n. lines_written a n s (writeLine a l s)"
proof (cases "currentHeight s + leading (style a) > height (bounds a)")
  case True
  then have "writeLine a l s = s" by (rule writeLine_overflow)
  with lines_written_refl [of a s] show ?thesis by auto
next
  case False
  then have "lines_written a 1 s (writeLine a l s)"
    by (simp add: lines_written_def same_setup_def paints_per_line_def writeLine_def Let_def
        fillText_def strokeText_def translate_def)
  then show ?thesis by blast
qed

lemma testLine_loop_lines_written:
  assumes "testLine_loop mt a words sep n line s = Some r"
  shows "\<exists>k. lines_written a k s (snd r)"
proof (rule testLine_loop_invariant
    [where R = "\<lambda>a s s'. \<exists>k. lines_written a k s s'", OF _ _ _ assms])
  show "\<exists>k. lines_written a k s s" for a s using lines_written_refl by blast
  show "\<exists>k. lines_written a k s u"
    if "\<exists>k. lines_written a k s t" "\<exists>k. lines_written a k t u" for a s t u
    using that lines_written_trans by blast
  show "\<exists>k. lines_written a k s (writeLine a l s)" for a l s by (rule writeLine_lines_written)
qed

lemma draw_lines_lines_written:
  assumes "draw_lines mt a lns s = Some s'"
  shows "\<exists>k. lines_written a k s s'"
  using assms
proof (induction lns arbitrary: s)
  case Nil
  then show ?case using lines_written_refl [of a s] by auto
next
  case (Cons l ls)
  from Cons.prems obtain r where
    r: "testLine_loop mt a (split CHR '' '' l) '' '' 0 [] s = Some r" and
    k: "draw_lines mt a ls
          (if length (fst r) > 0 then writeLine a (join '' '' (fst r)) (snd r) else snd r) = Some s'"
    by (auto simp: testLine_def bind_eq_Some_conv)
  let ?s1 = "if length (fst r) > 0 then writeLine a (join '' '' (fst r)) (snd r) else snd r"
  from testLine_loop_lines_written [OF r] obtain k1 where 1: "lines_written a k1 s (snd r)"
    by blast
  have "\<exists>k. lines_written a k (snd r) ?s1"
    using writeLine_lines_written [of a "snd r" "join '' '' (fst r)"] lines_written_refl [of a "snd r"]
    by auto
  then obtain k2 where 2: "lines_written a k2 (snd r) ?s1" by blast
  from Cons.IH [OF k] obtain k3 where 3: "lines_written a k3 ?s1 s'" by blast
  from lines_written_trans [OF lines_written_trans [OF 1 2] 3] show ?case by blast
qed

lemma AreaText_draw_leaves_setup:
  assumes "textItem a = Some t" "content t \<noteq> []"
      and "width (bounds a) \<noteq> 0" "height (bounds a) \<noteq> 0"
      and "AreaText_draw mt a c = Some c'"
  shows "globalCompositeOperation c' = globalCompositeOperation c
       \<and> ctx_font c' = getFontStyle (style a)
       \<and> textAlign c' = justification (style a)
       \<and> (\<exists>n. translation c' =
                (fst (translation c) + fst (setup_origin a),
                 snd (translation c) + snd (setup_origin a) + of_nat n * leading (style a))
              \<and> length (painted c') = length (painted c) + n * paints_per_line a)"
proof -
  let ?c2 = "(setStyles (style a) c)\<lparr>ctx_font := getFontStyle (style a),
                                      textAlign := justification (style a)\<rparr>"
  let ?c3 = "case parseInt_fontSize (fontSize (style a)) of
               None \<Rightarrow> ?c2
             | Some k \<Rightarrow> translate (topLeft_x (bounds a) + 1) (topLeft_y (bounds a) + of_int k - 1) ?c2"
  from assms obtain s' where
    d: "draw_lines mt a (lines t) \<lparr>ctx = ?c3, currentHeight = 0\<rparr> = Some s'" and c': "c' = ctx s'"
    by (auto simp: AreaText_draw_def Let_def)
  have c3: "globalCompositeOperation ?c3 = globalCompositeOperation c"
    "ctx_font ?c3 = getFontStyle (style a)" "textAlign ?c3 = justification (style a)"
    "translation ?c3 = (fst (translation c) + fst (setup_origin a),
                        snd (translation c) + snd (setup_origin a))"
    "painted ?c3 = painted c"
    by (simp_all add: setup_origin_def translate_def setStyles_def split: option.splits)
  from draw_lines_lines_written [OF d] obtain n where
    n: "lines_written a n \<lparr>ctx = ?c3, currentHeight = 0\<rparr> s'" by blast
  from n c3 have "globalCompositeOperation c' = globalCompositeOperation c"
    "ctx_font c' = getFontStyle (style a)" "textAlign c' = justification (style a)"
    by (simp_all add: lines_written_def same_setup_def c')
  moreover from n c3 have "translation c' =
                (fst (translation c) + fst (setup_origin a),
                 snd (translation c) + snd (setup_origin a) + of_nat n * leading (style a))
              \<and> length (painted c') = length (painted c) + n * paints_per_line a"
    by (simp add: lines_written_def same_setup_def c' prod_eq_iff)
  ultimately show ?thesis by blast
qed

lemma sample_region_drawn:
  "AreaText_draw weighted_width sample_region blank_ctx =
     Some \<lparr>globalCompositeOperation = ''source-over'', ctx_font = (Some (Px 10), ''serif''),
            textAlign = ''left'', translation = (6, 40), fillStyle = Some ''black'',
            strokeStyle = None,
            painted = [FillText ''aaa'' 6 16, FillText ''bbb ccc'' 6 28]\<rparr>"
proof -
  let ?s = "\<lparr>ctx = translate (topLeft_x (bounds sample_region) + 1)
                    (topLeft_y (bounds sample_region) + of_int 10 - 1)
                    ((setStyles (style sample_region) blank_ctx)
                       \<lparr>ctx_font := getFontStyle (style sample_region),
                        textAlign := justification (style sample_region)\<rparr>),
            currentHeight = 0\<rparr>"
  have w: "width (bounds sample_region) = 8" by (simp add: sample_region_def)
  have "draw_lines weighted_width sample_region [''aaa bbb ccc''] ?s =
          Some (writeLine sample_region ''bbb ccc'' (writeLine sample_region ''aaa'' ?s))"
    by (rule draw_lines_aaa_bbb_ccc) (simp_all add: weighted_width_values w)
  then have "AreaText_draw weighted_width sample_region blank_ctx =
          Some (ctx (writeLine sample_region ''bbb ccc'' (writeLine sample_region ''aaa'' ?s)))"
    by (simp add: AreaText_draw_def sample_region_def parseInt_fontSize_def Let_def)
  then show ?thesis
    by (simp add: writeLine_def sample_region_def blank_ctx_def fillText_def translate_def
        setStyles_def getFontStyle_def Let_def)
qed

lemma nan_region_drawn:
  "AreaText_draw weighted_width nan_region blank_ctx =
     Some \<lparr>globalCompositeOperation = ''source-over'', ctx_font = (Some PxNaN, ''serif''),
            textAlign = ''left'', translation = (0, 24), fillStyle = Some ''black'',
            strokeStyle = None,
            painted = [FillText ''aaa'' 0 0, FillText ''bbb ccc'' 0 12]\<rparr>"
proof -
  let ?s = "\<lparr>ctx = (setStyles (style nan_region) blank_ctx)
                       \<lparr>ctx_font := getFontStyle (style nan_region),
                        textAlign := justification (style nan_region)\<rparr>,
            currentHeight = 0\<rparr>"
  have w: "width (bounds nan_region) = 8" by (simp add: nan_region_def sample_region_def)
  have "draw_lines weighted_width nan_region [''aaa bbb ccc''] ?s =
          Some (writeLine nan_region ''bbb ccc'' (writeLine nan_region ''aaa'' ?s))"
    by (rule draw_lines_aaa_bbb_ccc) (simp_all add: weighted_width_values w)
  then have "AreaText_draw weighted_width nan_region blank_ctx =
          Some (ctx (writeLine nan_region ''bbb ccc'' (writeLine nan_region ''aaa'' ?s)))"
    by (simp add: AreaText_draw_def nan_region_def sample_region_def parseInt_fontSize_def Let_def)
  then show ?thesis
    by (simp add: writeLine_def nan_region_def sample_region_def blank_ctx_def fillText_def
        translate_def setStyles_def getFontStyle_def Let_def)
qed

text \<open>
  C6, as the code has it. \<^verbatim>\<open>Group._draw\<close> puts the blend operator back after each clip-mask
  child and sets nothing else on the surface: when the draw of every child that is not a
  clip mask keeps the blend operator, the blend operator after the pass is what it was
  before; and when the draws of the children keep font, alignment and transform, these are
  after the pass what they were before. \<^verbatim>\<open>AreaText._draw\<close> restores nothing: when it gets
  past its early exits and returns, the blend operator is untouched, the font and the
  alignment are those of the style, and the origin is still moved by the translation of
  the setup (left edge plus 1 and top edge plus font size minus 1; none for the font size
  NaNpx) and further down by the leading for each of the \<open>n\<close> lines written, whose glyph
  runs are what the call added to the surface.
\<close>

theorem surface_state_after_draw:
  "((\<forall>it \<in> set (children g). \<not> clipMask it \<longrightarrow> keeps_blend d it) \<longrightarrow>
      globalCompositeOperation (fst (snd (Group_draw d g c p))) = globalCompositeOperation c)
   \<and> ((\<forall>it \<in> set (children g). keeps_layout d it) \<longrightarrow>
      layout (fst (snd (Group_draw d g c p))) = layout c)
   \<and> (\<forall>t c'. textItem a = Some t \<and> content t \<noteq> [] \<and>
         width (bounds a) \<noteq> 0 \<and> height (bounds a) \<noteq> 0 \<and>
         AreaText_draw mt a c = Some c' \<longrightarrow>
         globalCompositeOperation c' = globalCompositeOperation c \<and>
         ctx_font c' = getFontStyle (style a) \<and>
         textAlign c' = justification (style a) \<and>
         (\<exists>n. translation c' =
                (fst (translation c) + fst (setup_origin a),
                 snd (translation c) + snd (setup_origin a) + of_nat n * leading (style a))
              \<and> length (painted c') = length (painted c) + n * paints_per_line a))"
proof (intro conjI allI impI)
  assume "\<forall>it \<in> set (children g). \<not> clipMask it \<longrightarrow> keeps_blend d it"
  then show "globalCompositeOperation (fst (snd (Group_draw d g c p))) = globalCompositeOperation c"
    by (rule Group_draw_blend)
next
  assume "\<forall>it \<in> set (children g). keeps_layout d it"
  then show "layout (fst (snd (Group_draw d g c p))) = layout c"
    by (rule Group_draw_layout)
next
  fix t c'
  assume h: "textItem a = Some t \<and> content t \<noteq> [] \<and>
         width (bounds a) \<noteq> 0 \<and> height (bounds a) \<noteq> 0 \<and>
         AreaText_draw mt a c = Some c'"
  then have r: "globalCompositeOperation c' = globalCompositeOperation c
       \<and> ctx_font c' = getFontStyle (style a)
       \<and> textAlign c' = justification (style a)
       \<and> (\<exists>n. translation c' =
                (fst (translation c) + fst (setup_origin a),
                 snd (translation c) + snd (setup_origin a) + of_nat n * leading (style a))
              \<and> length (painted c') = length (painted c) + n * paints_per_line a)"
    by (intro AreaText_draw_leaves_setup [where t = t and mt = mt]) simp_all
  from r show "globalCompositeOperation c' = globalCompositeOperation c" by simp
  from r show "ctx_font c' = getFontStyle (style a)" by simp
  from r show "textAlign c' = justification (style a)" by simp
  from r show "\<exists>n. translation c' =
                (fst (translation c) + fst (setup_origin a),
                 snd (translation c) + snd (setup_origin a) + of_nat n * leading (style a))
              \<and> length (painted c') = length (painted c) + n * paints_per_line a" by simp
qed

theorem surface_state_after_draw_witness:
  "globalCompositeOperation (fst (snd (Group_draw item_draw mixed_group blank_ctx \<lparr>offset = None\<rparr>)))
     = ''source-over''
   \<and> layout (fst (snd (Group_draw item_draw mixed_group blank_ctx \<lparr>offset = None\<rparr>)))
     = ((None, ''sans-serif''), ''start'', (0, 0))
   \<and> AreaText_draw weighted_width sample_region blank_ctx \<noteq> None
   \<and> map_option ctx_font (AreaText_draw weighted_width sample_region blank_ctx)
       = Some (Some (Px 10), ''serif'')
   \<and> map_option translation (AreaText_draw weighted_width sample_region blank_ctx)
       = Some (0 + 6, 0 + 16 + 2 * 12)
   \<and> AreaText_draw weighted_width nan_region blank_ctx \<noteq> None
   \<and> map_option translation (AreaText_draw weighted_width nan_region blank_ctx)
       = Some (0 + 0, 0 + 0 + 2 * 12)"
proof -
  let ?c' = "\<lparr>globalCompositeOperation = ''source-over'', ctx_font = (Some (Px 10), ''serif''),
            textAlign = ''left'', translation = (6, 40), fillStyle = Some ''black'',
            strokeStyle = None,
            painted = [FillText ''aaa'' 6 16, FillText ''bbb ccc'' 6 28]\<rparr>"
  let ?n' = "\<lparr>globalCompositeOperation = ''source-over'', ctx_font = (Some PxNaN, ''serif''),
            textAlign = ''left'', translation = (0, 24), fillStyle = Some ''black'',
            strokeStyle = None,
            painted = [FillText ''aaa'' 0 0, FillText ''bbb ccc'' 0 12]\<rparr>"
  note t = surface_state_after_draw [where g = mixed_group and d = item_draw and c = blank_ctx
      and p = "\<lparr>offset = None\<rparr>" and a = sample_region and mt = weighted_width]
  note u = surface_state_after_draw [where g = mixed_group and d = item_draw and c = blank_ctx
      and p = "\<lparr>offset = None\<rparr>" and a = nan_region and mt = weighted_width]
  have kb: "\<forall>it \<in> set (children mixed_group). \<not> clipMask it \<longrightarrow> keeps_blend item_draw it"
    by (simp add: item_draw_keeps)
  have kl: "\<forall>it \<in> set (children mixed_group). keeps_layout item_draw it"
    by (simp add: item_draw_keeps)
  from t [THEN conjunct1, THEN mp, OF kb]
  have a: "globalCompositeOperation
      (fst (snd (Group_draw item_draw mixed_group blank_ctx \<lparr>offset = None\<rparr>))) = ''source-over''"
    by (simp add: blank_ctx_def)
  from t [THEN conjunct2, THEN conjunct1, THEN mp, OF kl]
  have b: "layout (fst (snd (Group_draw item_draw mixed_group blank_ctx \<lparr>offset = None\<rparr>)))
     = ((None, ''sans-serif''), ''start'', (0, 0))"
    by (simp add: layout_def blank_ctx_def)
  have h: "textItem sample_region = Some \<lparr>content = ''aaa bbb ccc'', lines = [''aaa bbb ccc'']\<rparr>
      \<and> content \<lparr>content = ''aaa bbb ccc'', lines = [''aaa bbb ccc'']\<rparr> \<noteq> []
      \<and> width (bounds sample_region) \<noteq> 0 \<and> height (bounds sample_region) \<noteq> 0
      \<and> AreaText_draw weighted_width sample_region blank_ctx = Some ?c'"
    using sample_region_drawn by (simp add: sample_region_def)
  have h': "textItem nan_region = Some \<lparr>content = ''aaa bbb ccc'', lines = [''aaa bbb ccc'']\<rparr>
      \<and> content \<lparr>content = ''aaa bbb ccc'', lines = [''aaa bbb ccc'']\<rparr> \<noteq> []
      \<and> width (bounds nan_region) \<noteq> 0 \<and> height (bounds nan_region) \<noteq> 0
      \<and> AreaText_draw weighted_width nan_region blank_ctx = Some ?n'"
    using nan_region_drawn by (simp add: nan_region_def sample_region_def)
  from t [THEN conjunct2, THEN conjunct2, rule_format, OF h]
  have r: "ctx_font ?c' = getFontStyle (style sample_region)" by simp
  from u [THEN conjunct2, THEN conjunct2, rule_format, OF h']
  have r': "ctx_font ?n' = getFontStyle (style nan_region)" by simp
  have n: "AreaText_draw weighted_width sample_region blank_ctx \<noteq> None"
    by (simp add: sample_region_drawn)
  from r have f: "map_option ctx_font (AreaText_draw weighted_width sample_region blank_ctx)
       = Some (Some (Px 10), ''serif'')"
    by (simp add: sample_region_drawn)
  have m: "map_option translation (AreaText_draw weighted_width sample_region blank_ctx)
       = Some (0 + 6, 0 + 16 + 2 * 12)"
    by (simp add: sample_region_drawn)
  from r' have n': "AreaText_draw weighted_width nan_region blank_ctx \<noteq> None"
    by (simp add: nan_region_drawn)
  have m': "map_option translation (AreaText_draw weighted_width nan_region blank_ctx)
       = Some (0 + 0, 0 + 0 + 2 * 12)"
    by (simp add: nan_region_drawn)
  from a b n f m n' m' show ?thesis by (intro conjI)
qed

text \<open>
  C6 as stated fails: after \<^verbatim>\<open>AreaText._draw\<close> of the sample region the transform of the
  surface, (0, 0) before the call, is (6, 40), and the font is that of the region.
\<close>

theorem AreaText_draw_leaves_surface_changed:
  "translation blank_ctx = (0, 0)
   \<and> map_option translation (AreaText_draw weighted_width sample_region blank_ctx) = Some (6, 40)
   \<and> ctx_font blank_ctx = (None, ''sans-serif'')
   \<and> map_option ctx_font (AreaText_draw weighted_width sample_region blank_ctx)
       = Some (Some (Px 10), ''serif'')"
  by (simp add: sample_region_drawn) (simp add: blank_ctx_def)

section \<open>AreaText: when the draw returns\<close>

text \<open>
  The character-level loop returns when every single character fits the box: a character
  is then never wider than the box on an empty candidate, and every other round either
  moves to the next character or empties the candidate.
\<close>

lemma testLine_loop_characters_return:
  assumes "\<forall>ch. mt (ctx_font (ctx s)) [ch] \<le> width (bounds a)"
  shows "\<exists>r. testLine_loop mt a (map (\<lambda>ch. [ch]) w) [] n line s = Some r"
  using assms
proof (induction "2 * (length w - n) + (if line = [] then 0 else 1)"
    arbitrary: n line s rule: less_induct)
  case less
  let ?ws = "map (\<lambda>ch. [ch]) w"
  show ?case
  proof (cases "n < length ?ws")
    case False
    then show ?thesis by (simp add: testLine_loop_end)
  next
    case inb: True
    show ?thesis
    proof (cases "mt (ctx_font (ctx s)) (join [] (line @ [?ws ! n])) > width (bounds a)")
      case False
      with inb have "testLine_loop mt a ?ws [] n line s =
          testLine_loop mt a ?ws [] (Suc n) (line @ [?ws ! n]) s"
        by (rule testLine_loop_fit)
      moreover from inb have "2 * (length w - Suc n) + (if line @ [?ws ! n] = [] then 0 else 1)
          < 2 * (length w - n) + (if line = [] then 0 else 1)" by simp
      from less.hyps [OF this less.prems]
      have "\<exists>r. testLine_loop mt a ?ws [] (Suc n) (line @ [?ws ! n]) s = Some r" .
      ultimately show ?thesis by simp
    next
      case wide: True
      have ne: "line \<noteq> []"
      proof
        assume "line = []"
        with wide inb have "mt (ctx_font (ctx s)) [w ! n] > width (bounds a)" by simp
        with less.prems show False by (simp add: not_less [symmetric])
      qed
      from inb wide ne have "testLine_loop mt a ?ws [] n line s =
          testLine_loop mt a ?ws [] n [] (writeLine a (join [] line) s)"
        by (rule testLine_loop_break)
      moreover from ne have "2 * (length w - n) + (if ([]::string list) = [] then 0 else 1)
          < 2 * (length w - n) + (if line = [] then 0 else 1)" by simp
      from less.hyps [OF this, of "writeLine a (join [] line) s"] less.prems
      have "\<exists>r. testLine_loop mt a ?ws [] n [] (writeLine a (join [] line) s) = Some r"
        by simp
      ultimately show ?thesis by simp
    qed
  qed
qed

lemma testLine_loop_returns:
  assumes "\<forall>ch. mt (ctx_font (ctx s)) [ch] \<le> width (bounds a)"
  shows "\<exists>r. testLine_loop mt a words sep n line s = Some r"
  using assms
proof (induction "2 * (length words - n) + (if line = [] then 0 else 1)"
    arbitrary: n line s rule: less_induct)
  case less
  show ?case
  proof (cases "n < length words")
    case False
    then show ?thesis by (simp add: testLine_loop_end)
  next
    case inb: True
    show ?thesis
    proof (cases "mt (ctx_font (ctx s)) (join sep (line @ [words ! n])) > width (bounds a)")
      case False
      with inb have "testLine_loop mt a words sep n line s =
          testLine_loop mt a words sep (Suc n) (line @ [words ! n]) s"
        by (rule testLine_loop_fit)
      moreover from inb have "2 * (length words - Suc n) + (if line @ [words ! n] = [] then 0 else 1)
          < 2 * (length words - n) + (if line = [] then 0 else 1)" by simp
      from less.hyps [OF this less.prems]
      have "\<exists>r. testLine_loop mt a words sep (Suc n) (line @ [words ! n]) s = Some r" .
      ultimately show ?thesis by simp
    next
      case wide: True
      show ?thesis
      proof (cases "line = []")
        case False
        with inb wide have "testLine_loop mt a words sep n line s =
            testLine_loop mt a words sep n [] (writeLine a (join sep line) s)"
          by (intro testLine_loop_break)
        moreover from False have "2 * (length words - n) + (if ([]::string list) = [] then 0 else 1)
            < 2 * (length words - n) + (if line = [] then 0 else 1)" by simp
        from less.hyps [OF this, of "writeLine a (join sep line) s"] less.prems
        have "\<exists>r. testLine_loop mt a words sep n [] (writeLine a (join sep line) s) = Some r"
          by simp
        ultimately show ?thesis by simp
      next
        case True
        with wide have w: "mt (ctx_font (ctx s)) (words ! n) > width (bounds a)" by simp
        from testLine_loop_characters_return [where mt = mt and a = a and s = s, OF less.prems] obtain y where
          y: "testLine_loop mt a (map (\<lambda>ch. [ch]) (words ! n)) [] 0 [] s = Some y" by blast
        from testLine_loop_same_setup [OF y] have f: "ctx_font (ctx (snd y)) = ctx_font (ctx s)"
          by (simp add: same_setup_def)
        from inb have "2 * (length words - Suc n) + (if ([]::string list) = [] then 0 else 1)
            < 2 * (length words - n) + (if line = [] then 0 else 1)" by simp
        from less.hyps [OF this, of "writeLine a (join [] (fst y)) (snd y)"] less.prems f
        obtain r where
          "testLine_loop mt a words sep (Suc n) [] (writeLine a (join [] (fst y)) (snd y)) = Some r"
          by auto
        with testLine_loop_chars [where mt = mt and a = a and s = s and words = words and n = n
            and sep = sep, OF inb w] y True
        show ?thesis by simp
      qed
    qed
  qed
qed

lemma draw_lines_returns:
  assumes "\<forall>ch. mt (ctx_font (ctx s)) [ch] \<le> width (bounds a)"
  shows "\<exists>s'. draw_lines mt a lns s = Some s'"
  using assms
proof (induction lns arbitrary: s)
  case Nil
  show ?case by simp
next
  case (Cons l ls)
  from testLine_loop_returns [where mt = mt and a = a and s = s, OF Cons.prems] obtain r where
    r: "testLine_loop mt a (split CHR '' '' l) '' '' 0 [] s = Some r" by blast
  let ?s1 = "if length (fst r) > 0 then writeLine a (join '' '' (fst r)) (snd r) else snd r"
  from testLine_loop_same_setup [OF r] have "ctx_font (ctx ?s1) = ctx_font (ctx s)"
    by (simp add: same_setup_def)
  with Cons.prems have "\<forall>ch. mt (ctx_font (ctx ?s1)) [ch] \<le> width (bounds a)" by simp
  from Cons.IH [OF this] obtain s' where "draw_lines mt a ls ?s1 = Some s'" by blast
  with r show ?case by (simp add: testLine_def)
qed

text \<open>
  \<^verbatim>\<open>AreaText._draw\<close> returns whenever every single character, measured in the font of the
  style, is not wider than the box.
\<close>

lemma AreaText_draw_returns:
  assumes "\<forall>ch. mt (getFontStyle (style a)) [ch] \<le> width (bounds a)"
  shows "\<exists>c'. AreaText_draw mt a c = Some c'"
proof -
  have "\<exists>s'. draw_lines mt a lns \<lparr>ctx = c0\<lparr>ctx_font := getFontStyle (style a), textAlign := al\<rparr>,
                                    currentHeight = 0\<rparr> = Some s'" for lns c0 al
    by (rule draw_lines_returns) (simp add: assms)
  moreover have "\<exists>s'. draw_lines mt a lns
        \<lparr>ctx = translate dx dy (c0\<lparr>ctx_font := getFontStyle (style a), textAlign := al\<rparr>),
         currentHeight = 0\<rparr> = Some s'" for lns c0 al dx dy
    by (rule draw_lines_returns) (simp add: assms translate_def)
  ultimately show ?thesis
    by (auto simp: AreaText_draw_def Let_def split: option.splits)
qed

end
